theory Spec2Isabelle
  imports Main "HOL-Library.Word"
begin

unbundle bit_operations_syntax

section \<open>Errors\<close>

text \<open>
  Every error return of the two packages is a constructor. \<open>NotEnoughBits\<close> is the
  error of the bit reader; \<open>IndexOutOfRange\<close> stands for the run-time panic of a
  write past the end of a slice. The remaining constructors of \<open>error\<close> are the
  \<open>fmt.Errorf\<close> calls of \<open>UnmarshalFromPos\<close> and \<open>marshalTo\<close>, in source order, each
  carrying the number that the message prints.
\<close>

datatype error =
    NotEnoughBits
  | IndexOutOfRange
  | UnsupportedObjectType int
  | InvalidSampleRateIndex nat
  | NotYetSupported
  | InvalidChannelConfiguration nat
  | InvalidExtensionSampleRateIndex nat
  | Unsupported
  | InvalidChannelCount int

definition bind_err :: "error + 'a \<Rightarrow> ('a \<Rightarrow> error + 'b) \<Rightarrow> error + 'b" where
  "bind_err r f = (case r of Inl e \<Rightarrow> Inl e | Inr x \<Rightarrow> f x)"

section \<open>Bit cursor\<close>

text \<open>
  Modelled from the spec: package \<open>bits\<close> (\<open>ReadBits\<close>, \<open>ReadFlag\<close>, \<open>WriteBits\<close>) is
  imported by the codec but its source is not part of the sample. Sections 2 and 6 of the
  specification give its contract: an N-bit unsigned field is read from, or written to, a
  byte buffer at an externally tracked bit position, the position advances by N, a read
  fails with an insufficient-data error when fewer than N bits remain, and a write does
  not fail on a buffer of sufficient size. The model numbers the bits of the buffer from
  the most significant bit of byte 0 (the bit order of ISO 14496-3), reads a field as the
  big-endian number of its bits, writes the N low-order bits of the value, leaves every
  other bit of the buffer as it was, and turns a write that does not fit into the buffer
  into \<open>IndexOutOfRange\<close>. Positions and widths are natural numbers.
\<close>

type_synonym byte = "8 word"

definition bit_at :: "byte list \<Rightarrow> nat \<Rightarrow> bool" where
  "bit_at buf i = bit (buf ! (i div 8)) (7 - i mod 8)"

definition bitsOf :: "byte list \<Rightarrow> bool list" where
  "bitsOf buf = map (bit_at buf) [0..<8 * length buf]"

definition bits_val :: "bool list \<Rightarrow> nat" where
  "bits_val bs = foldl (\<lambda>a b. 2 * a + (if b then 1 else 0)) 0 bs"

primrec nbits :: "nat \<Rightarrow> nat \<Rightarrow> bool list" where
  "nbits 0 v = []"
| "nbits (Suc n) v = bit v n # nbits n v"

definition put_bit :: "byte list \<Rightarrow> nat \<Rightarrow> bool \<Rightarrow> byte list" where
  "put_bit buf i b =
     buf[i div 8 := (if b then set_bit (7 - i mod 8) (buf ! (i div 8))
                     else unset_bit (7 - i mod 8) (buf ! (i div 8)))]"

primrec write_field :: "byte list \<Rightarrow> nat \<Rightarrow> bool list \<Rightarrow> byte list" where
  "write_field buf pos [] = buf"
| "write_field buf pos (b # bs) = write_field (put_bit buf pos b) (Suc pos) bs"

definition ReadBits :: "byte list \<Rightarrow> nat \<Rightarrow> nat \<Rightarrow> error + (nat \<times> nat)" where
  "ReadBits buf pos n =
     (if 8 * length buf < pos + n then Inl NotEnoughBits
      else Inr (bits_val (map (bit_at buf) [pos..<pos + n]), pos + n))"

definition ReadFlag :: "byte list \<Rightarrow> nat \<Rightarrow> error + (bool \<times> nat)" where
  "ReadFlag buf pos =
     (if 8 * length buf < pos + 1 then Inl NotEnoughBits
      else Inr (bit_at buf pos, pos + 1))"

definition WriteBits :: "byte list \<Rightarrow> nat \<Rightarrow> nat \<Rightarrow> nat \<Rightarrow> error + (byte list \<times> nat)" where
  "WriteBits buf pos v n =
     (if 8 * length buf < pos + n then Inl IndexOutOfRange
      else Inr (write_field buf pos (nbits n v), pos + n))"

section \<open>Object types and sample-rate tables\<close>

text \<open>
  Modelled from the spec: the declarations of \<open>ObjectType\<close>, of its three constants
  and of the tables \<open>sampleRates\<close> and \<open>reverseSampleRates\<close> are used by the codec but are
  not part of the sample. Section 3 of the specification fixes three recognised profiles,
  a forward table of 13 rates without duplicates and a reverse map consistent with it;
  the numbers are those of ISO 14496-3, which the specification follows. \<open>ObjectType\<close>
  is an integer type, and the reverse table is a map literal of its own, as
  \<open>reverseSampleRates[c.SampleRate]\<close> with its \<open>ok\<close> result shows.
\<close>

type_synonym ObjectType = int

definition ObjectTypeAACLC :: ObjectType where "ObjectTypeAACLC = 2"
definition ObjectTypeSBR :: ObjectType where "ObjectTypeSBR = 5"
definition ObjectTypePS :: ObjectType where "ObjectTypePS = 29"

definition sampleRates :: "int list" where
  "sampleRates =
     [96000, 88200, 64000, 48000, 44100, 32000, 24000, 22050, 16000, 12000, 11025, 8000, 7350]"

definition reverseSampleRates :: "int \<rightharpoonup> int" where
  "reverseSampleRates = map_of
     [(96000, 0), (88200, 1), (64000, 2), (48000, 3), (44100, 4), (32000, 5), (24000, 6),
      (22050, 7), (16000, 8), (12000, 9), (11025, 10), (8000, 11), (7350, 12)]"

section \<open>AudioSpecificConfig\<close>

text \<open>
  Go's \<open>int\<close> fields are integers; \<open>uint64(x)\<close> of an \<open>int\<close> is \<open>x mod 2 ^ 64\<close>.
  \<open>CoreCoderDelay\<close> is a \<open>uint16\<close>. \<open>zeroConfig\<close> is the zero value of the struct, the
  receiver of a decode into a fresh record.
\<close>

record AudioSpecificConfig =
  Type :: ObjectType
  SampleRate :: int
  ChannelCount :: int
  ExtensionType :: ObjectType
  ExtensionSampleRate :: int
  FrameLengthFlag :: bool
  DependsOnCoreCoder :: bool
  CoreCoderDelay :: "16 word"

definition zeroConfig :: AudioSpecificConfig where
  "zeroConfig = \<lparr>Type = 0, SampleRate = 0, ChannelCount = 0, ExtensionType = 0,
     ExtensionSampleRate = 0, FrameLengthFlag = False, DependsOnCoreCoder = False,
     CoreCoderDelay = 0\<rparr>"

definition uint64 :: "int \<Rightarrow> nat" where
  "uint64 x = nat (x mod 2 ^ 64)"

subsection \<open>Decoding\<close>

text \<open>
  \<open>UnmarshalFromPos\<close> is one sequence of reads; the model cuts it at its blank lines
  into five blocks, each taking the record and the position and returning the error or
  the updated record and position. Lines 36 to 46: the object type.
\<close>

definition unmarshalType ::
  "AudioSpecificConfig \<Rightarrow> byte list \<Rightarrow> nat \<Rightarrow> error + (AudioSpecificConfig \<times> nat)" where
  "unmarshalType c buf pos =
     (case ReadBits buf pos 5 of
        Inl err \<Rightarrow> Inl err
      | Inr (tmp, pos) \<Rightarrow>
          let c = c\<lparr>Type := int tmp\<rparr> in
          if Type c = ObjectTypeAACLC \<or> Type c = ObjectTypeSBR \<or> Type c = ObjectTypePS
          then Inr (c, pos)
          else Inl (UnsupportedObjectType (Type c)))"

text \<open>Lines 48 to 66: the sample-rate index and the explicit rate.\<close>

definition unmarshalSampleRate ::
  "AudioSpecificConfig \<Rightarrow> byte list \<Rightarrow> nat \<Rightarrow> error + (AudioSpecificConfig \<times> nat)" where
  "unmarshalSampleRate c buf pos =
     (case ReadBits buf pos 4 of
        Inl err \<Rightarrow> Inl err
      | Inr (sampleRateIndex, pos) \<Rightarrow>
          if sampleRateIndex \<le> 12
          then Inr (c\<lparr>SampleRate := sampleRates ! sampleRateIndex\<rparr>, pos)
          else if sampleRateIndex = 0x0F
          then (case ReadBits buf pos 24 of
                  Inl err \<Rightarrow> Inl err
                | Inr (tmp, pos) \<Rightarrow> Inr (c\<lparr>SampleRate := int tmp\<rparr>, pos))
          else Inl (InvalidSampleRateIndex sampleRateIndex))"

text \<open>Lines 68 to 85: the channel configuration.\<close>

definition unmarshalChannelConfig ::
  "AudioSpecificConfig \<Rightarrow> byte list \<Rightarrow> nat \<Rightarrow> error + (AudioSpecificConfig \<times> nat)" where
  "unmarshalChannelConfig c buf pos =
     (case ReadBits buf pos 4 of
        Inl err \<Rightarrow> Inl err
      | Inr (channelConfig, pos) \<Rightarrow>
          if channelConfig = 0 then Inl NotYetSupported
          else if 1 \<le> channelConfig \<and> channelConfig \<le> 6
          then Inr (c\<lparr>ChannelCount := int channelConfig\<rparr>, pos)
          else if channelConfig = 7 then Inr (c\<lparr>ChannelCount := 8\<rparr>, pos)
          else Inl (InvalidChannelConfiguration channelConfig))"

text \<open>Lines 87 to 119: the SBR / PS extension.\<close>

definition unmarshalExtension ::
  "AudioSpecificConfig \<Rightarrow> byte list \<Rightarrow> nat \<Rightarrow> error + (AudioSpecificConfig \<times> nat)" where
  "unmarshalExtension c buf pos =
     (if Type c = ObjectTypeSBR \<or> Type c = ObjectTypePS then
        let c = c\<lparr>ExtensionType := Type c\<rparr> in
        case ReadBits buf pos 4 of
          Inl err \<Rightarrow> Inl err
        | Inr (extensionSamplingFrequencyIndex, pos) \<Rightarrow>
            bind_err
              (if extensionSamplingFrequencyIndex \<le> 12
               then Inr (c\<lparr>ExtensionSampleRate :=
                             sampleRates ! extensionSamplingFrequencyIndex\<rparr>, pos)
               else if extensionSamplingFrequencyIndex = 0x0F
               then (case ReadBits buf pos 24 of
                       Inl err \<Rightarrow> Inl err
                     | Inr (tmp, pos) \<Rightarrow> Inr (c\<lparr>ExtensionSampleRate := int tmp\<rparr>, pos))
               else Inl (InvalidExtensionSampleRateIndex extensionSamplingFrequencyIndex))
              (\<lambda>(c, pos).
                 case ReadBits buf pos 5 of
                   Inl err \<Rightarrow> Inl err
                 | Inr (tmp, pos) \<Rightarrow>
                     let c = c\<lparr>Type := int tmp\<rparr> in
                     if Type c \<noteq> ObjectTypeAACLC
                     then Inl (UnsupportedObjectType (Type c))
                     else Inr (c, pos))
      else Inr (c, pos))"

text \<open>Lines 121 to 148: the two flags, the core-coder delay and the extension flag.\<close>

definition unmarshalFlags ::
  "AudioSpecificConfig \<Rightarrow> byte list \<Rightarrow> nat \<Rightarrow> error + (AudioSpecificConfig \<times> nat)" where
  "unmarshalFlags c buf pos =
     (case ReadFlag buf pos of
        Inl err \<Rightarrow> Inl err
      | Inr (f, pos) \<Rightarrow>
          let c = c\<lparr>FrameLengthFlag := f\<rparr> in
          case ReadFlag buf pos of
            Inl err \<Rightarrow> Inl err
          | Inr (d, pos) \<Rightarrow>
              let c = c\<lparr>DependsOnCoreCoder := d\<rparr> in
              bind_err
                (if DependsOnCoreCoder c
                 then (case ReadBits buf pos 14 of
                         Inl err \<Rightarrow> Inl err
                       | Inr (tmp, pos) \<Rightarrow> Inr (c\<lparr>CoreCoderDelay := of_nat tmp\<rparr>, pos))
                 else Inr (c, pos))
                (\<lambda>(c, pos).
                   case ReadFlag buf pos of
                     Inl err \<Rightarrow> Inl err
                   | Inr (extensionFlag, pos) \<Rightarrow>
                       if extensionFlag then Inl Unsupported else Inr (c, pos)))"

definition UnmarshalFromPos ::
  "AudioSpecificConfig \<Rightarrow> byte list \<Rightarrow> nat \<Rightarrow> error + (AudioSpecificConfig \<times> nat)" where
  "UnmarshalFromPos c buf pos =
     bind_err (unmarshalType c buf pos) (\<lambda>(c, pos).
     bind_err (unmarshalSampleRate c buf pos) (\<lambda>(c, pos).
     bind_err (unmarshalChannelConfig c buf pos) (\<lambda>(c, pos).
     bind_err (unmarshalExtension c buf pos) (\<lambda>(c, pos).
     unmarshalFlags c buf pos))))"

definition Unmarshal :: "AudioSpecificConfig \<Rightarrow> byte list \<Rightarrow> error + AudioSpecificConfig" where
  "Unmarshal c buf =
     (case UnmarshalFromPos c buf 0 of Inl err \<Rightarrow> Inl err | Inr (c, pos) \<Rightarrow> Inr c)"

subsection \<open>Encoding\<close>

definition hasExtension :: "AudioSpecificConfig \<Rightarrow> bool" where
  "hasExtension c \<longleftrightarrow> ExtensionType c = ObjectTypeSBR \<or> ExtensionType c = ObjectTypePS"

definition marshalSizeBits :: "AudioSpecificConfig \<Rightarrow> nat" where
  "marshalSizeBits c =
     (let n = 5 + 4 + 2 + 1;
          n = (case reverseSampleRates (SampleRate c) of None \<Rightarrow> n + 28 | Some _ \<Rightarrow> n + 4);
          n = (if hasExtension c
               then (case reverseSampleRates (ExtensionSampleRate c) of
                       None \<Rightarrow> n + 28 | Some _ \<Rightarrow> n + 4) + 5
               else n);
          n = (if DependsOnCoreCoder c then n + 14 else n)
      in n)"

definition marshalSize :: "AudioSpecificConfig \<Rightarrow> nat" where
  "marshalSize c =
     (let n = marshalSizeBits c;
          ret = n div 8
      in if n mod 8 \<noteq> 0 then ret + 1 else ret)"

text \<open>
  \<open>marshalTo\<close> is cut at its blank lines like the decoder. A write returns the error
  of a write past the end of the buffer or the updated buffer and position. Lines 203 to
  207: the first type field.
\<close>

definition marshalType ::
  "AudioSpecificConfig \<Rightarrow> byte list \<Rightarrow> nat \<Rightarrow> error + (byte list \<times> nat)" where
  "marshalType c buf pos =
     (if hasExtension c then WriteBits buf pos (uint64 (ExtensionType c)) 5
      else WriteBits buf pos (uint64 (Type c)) 5)"

text \<open>Lines 209 to 215: the sample rate.\<close>

definition marshalSampleRate ::
  "AudioSpecificConfig \<Rightarrow> byte list \<Rightarrow> nat \<Rightarrow> error + (byte list \<times> nat)" where
  "marshalSampleRate c buf pos =
     (case reverseSampleRates (SampleRate c) of
        None \<Rightarrow>
          bind_err (WriteBits buf pos 15 4) (\<lambda>(buf, pos).
            WriteBits buf pos (uint64 (SampleRate c)) 24)
      | Some sampleRateIndex \<Rightarrow> WriteBits buf pos (uint64 sampleRateIndex) 4)"

text \<open>Lines 217 to 228: the channel configuration, the only error return.\<close>

definition marshalChannelConfig ::
  "AudioSpecificConfig \<Rightarrow> byte list \<Rightarrow> nat \<Rightarrow> error + (byte list \<times> nat)" where
  "marshalChannelConfig c buf pos =
     bind_err
       (if 1 \<le> ChannelCount c \<and> ChannelCount c \<le> 6 then Inr (ChannelCount c)
        else if ChannelCount c = 8 then Inr 7
        else Inl (InvalidChannelCount (ChannelCount c)))
       (\<lambda>channelConfig. WriteBits buf pos (uint64 channelConfig) 4)"

text \<open>Lines 230 to 239: the extension rate and the second type field.\<close>

definition marshalExtension ::
  "AudioSpecificConfig \<Rightarrow> byte list \<Rightarrow> nat \<Rightarrow> error + (byte list \<times> nat)" where
  "marshalExtension c buf pos =
     (if hasExtension c then
        bind_err
          (case reverseSampleRates (ExtensionSampleRate c) of
             None \<Rightarrow>
               bind_err (WriteBits buf pos 0x0F 4) (\<lambda>(buf, pos).
                 WriteBits buf pos (uint64 (ExtensionSampleRate c)) 24)
           | Some sampleRateIndex \<Rightarrow> WriteBits buf pos (uint64 sampleRateIndex) 4)
          (\<lambda>(buf, pos). WriteBits buf pos (uint64 (Type c)) 5)
      else Inr (buf, pos))"

text \<open>
  Lines 241 to 257: the two flags, the delay, and the extension flag, which is not
  written: the position moves over one bit of the buffer.
\<close>

definition marshalFlags ::
  "AudioSpecificConfig \<Rightarrow> byte list \<Rightarrow> nat \<Rightarrow> error + (byte list \<times> nat)" where
  "marshalFlags c buf pos =
     bind_err
       (if FrameLengthFlag c then WriteBits buf pos 1 1 else WriteBits buf pos 0 1)
       (\<lambda>(buf, pos).
     bind_err
       (if DependsOnCoreCoder c then WriteBits buf pos 1 1 else WriteBits buf pos 0 1)
       (\<lambda>(buf, pos).
     bind_err
       (if DependsOnCoreCoder c then WriteBits buf pos (unat (CoreCoderDelay c)) 14
        else Inr (buf, pos))
       (\<lambda>(buf, pos). Inr (buf, pos + 1))))"

definition marshalTo ::
  "AudioSpecificConfig \<Rightarrow> byte list \<Rightarrow> nat \<Rightarrow> error + (byte list \<times> nat)" where
  "marshalTo c buf pos =
     bind_err (marshalType c buf pos) (\<lambda>(buf, pos).
     bind_err (marshalSampleRate c buf pos) (\<lambda>(buf, pos).
     bind_err (marshalChannelConfig c buf pos) (\<lambda>(buf, pos).
     bind_err (marshalExtension c buf pos) (\<lambda>(buf, pos).
     marshalFlags c buf pos))))"

definition Marshal :: "AudioSpecificConfig \<Rightarrow> error + byte list" where
  "Marshal c =
     (let buf = replicate (marshalSize c) 0 in
      case marshalTo c buf 0 of Inl err \<Rightarrow> Inl err | Inr (buf, pos) \<Rightarrow> Inr buf)"

section \<open>The bit layout of an encoded record\<close>

text \<open>
  The fields that \<open>marshalTo\<close> writes, as one list of bits in stream order, and the
  record that a decoder reads back from them. These definitions are used in the proofs
  only; the theorems about them relate them to \<open>Marshal\<close> and \<open>Unmarshal\<close>.
\<close>

definition validChannelCount :: "int \<Rightarrow> bool" where
  "validChannelCount n \<longleftrightarrow> (1 \<le> n \<and> n \<le> 6) \<or> n = 8"

definition typeBits :: "AudioSpecificConfig \<Rightarrow> bool list" where
  "typeBits c = nbits 5 (uint64 (if hasExtension c then ExtensionType c else Type c))"

definition rateBits :: "int \<Rightarrow> bool list" where
  "rateBits r =
     (case reverseSampleRates r of
        None \<Rightarrow> nbits 4 15 @ nbits 24 (uint64 r)
      | Some i \<Rightarrow> nbits 4 (uint64 i))"

definition rateWidth :: "int \<Rightarrow> nat" where
  "rateWidth r = (case reverseSampleRates r of None \<Rightarrow> 28 | Some _ \<Rightarrow> 4)"

definition channelBits :: "AudioSpecificConfig \<Rightarrow> bool list" where
  "channelBits c = nbits 4 (uint64 (if ChannelCount c = 8 then 7 else ChannelCount c))"

definition extensionBits :: "AudioSpecificConfig \<Rightarrow> bool list" where
  "extensionBits c =
     (if hasExtension c then rateBits (ExtensionSampleRate c) @ nbits 5 (uint64 (Type c))
      else [])"

definition flagBits :: "AudioSpecificConfig \<Rightarrow> bool list" where
  "flagBits c =
     [FrameLengthFlag c, DependsOnCoreCoder c]
     @ (if DependsOnCoreCoder c then nbits 14 (unat (CoreCoderDelay c)) else [])
     @ [False]"

definition layout :: "AudioSpecificConfig \<Rightarrow> bool list" where
  "layout c =
     typeBits c @ rateBits (SampleRate c) @ channelBits c @ extensionBits c @ flagBits c"

definition readRate :: "int \<Rightarrow> int" where
  "readRate r = (case reverseSampleRates r of None \<Rightarrow> r mod 2 ^ 24 | Some _ \<Rightarrow> r)"

definition readBack :: "AudioSpecificConfig \<Rightarrow> AudioSpecificConfig" where
  "readBack c =
     \<lparr>Type = ObjectTypeAACLC,
      SampleRate = readRate (SampleRate c),
      ChannelCount = ChannelCount c,
      ExtensionType = (if hasExtension c then ExtensionType c else 0),
      ExtensionSampleRate = (if hasExtension c then readRate (ExtensionSampleRate c) else 0),
      FrameLengthFlag = FrameLengthFlag c,
      DependsOnCoreCoder = DependsOnCoreCoder c,
      CoreCoderDelay = (if DependsOnCoreCoder c then take_bit 14 (CoreCoderDelay c) else 0)\<rparr>"

definition emits :: "error + (byte list \<times> nat) \<Rightarrow> bool list \<Rightarrow> nat \<Rightarrow> bool" where
  "emits r w k \<longleftrightarrow> (\<exists>buf. r = Inr (buf, length w) \<and> bitsOf buf = w @ replicate k False)"

text \<open>
  The records on which encoding followed by decoding into a fresh record is the identity:
  the type is the base profile, the channel count is one that the format has a code for,
  a rate is a table entry or a 24-bit number, the extension fields are zero unless the
  extension type is SBR or PS, and the delay is a 14-bit number that is zero unless
  depends-on-core is set.
\<close>

definition representableRate :: "int \<Rightarrow> bool" where
  "representableRate r \<longleftrightarrow> r \<in> set sampleRates \<or> (0 \<le> r \<and> r < 2 ^ 24)"

definition inDecodeDomain :: "AudioSpecificConfig \<Rightarrow> bool" where
  "inDecodeDomain v \<longleftrightarrow>
     Type v = ObjectTypeAACLC
     \<and> validChannelCount (ChannelCount v)
     \<and> representableRate (SampleRate v)
     \<and> (if hasExtension v then representableRate (ExtensionSampleRate v)
         else ExtensionType v = 0 \<and> ExtensionSampleRate v = 0)
     \<and> (if DependsOnCoreCoder v then CoreCoderDelay v \<le> 16383
         else CoreCoderDelay v = 0)"

text \<open>
  The size of section 4.2 of the specification, in its words: 5 + 4 + 4 + 1 + 1 bits,
  24 more when the sample rate is absent from the reverse table, with an extension the
  extension rate (4 or 28 bits) and 5 bits for the second type, and 14 bits when
  depends-on-core is set. It is compared with \<open>marshalSizeBits\<close> below.
\<close>

definition specSizeBits :: "AudioSpecificConfig \<Rightarrow> nat" where
  "specSizeBits c =
     5 + 4 + 4 + 1 + 1
     + (case reverseSampleRates (SampleRate c) of None \<Rightarrow> 24 | Some _ \<Rightarrow> 0)
     + (if hasExtension c
        then (case reverseSampleRates (ExtensionSampleRate c) of None \<Rightarrow> 28 | Some _ \<Rightarrow> 4) + 5
        else 0)
     + (if DependsOnCoreCoder c then 14 else 0)"

section \<open>The AV1 OBU header\<close>

text \<open>
  \<open>OBUHeader.Unmarshal\<close> of \<open>pkg/codecs/av1/obu_header.go\<close>. \<open>OBUType\<close> is a \<open>uint8\<close>.
  The fields \<open>Type\<close> and \<open>HasSize\<close> of the struct are \<open>obuType\<close> and \<open>obuHasSize\<close>
  here, since \<open>Type\<close> is a field of \<open>AudioSpecificConfig\<close> already.
\<close>

datatype obu_error = NotEnoughBytes | ForbiddenBitSet | ExtensionFlagNotSupported

record OBUHeader =
  obuType :: byte
  obuHasSize :: bool

definition OBUHeader_Unmarshal :: "OBUHeader \<Rightarrow> byte list \<Rightarrow> obu_error + OBUHeader" where
  "OBUHeader_Unmarshal h buf =
     (if length buf < 1 then Inl NotEnoughBytes
      else
        let forbidden = (drop_bit 7 (buf ! 0) \<noteq> 0) in
        if forbidden then Inl ForbiddenBitSet
        else
          let h = h\<lparr>obuType := drop_bit 3 (buf ! 0)\<rparr>;
              extensionFlag = ((drop_bit 2 (buf ! 0) AND 1) \<noteq> 0)
          in if extensionFlag then Inl ExtensionFlagNotSupported
             else Inr (h\<lparr>obuHasSize := ((drop_bit 1 (buf ! 0) AND 1) \<noteq> 0)\<rparr>))"

text \<open>
  The type code in the words of section 6 of the specification: the five bits that
  follow the leading bit of the byte.
\<close>

definition fiveBitsAfterForbidden :: "byte \<Rightarrow> byte" where
  "fiveBitsAfterForbidden b = take_bit 5 (drop_bit 2 b)"

section \<open>The bit cursor on lists of bits\<close>

lemma length_bitsOf [simp]: "length (bitsOf buf) = 8 * length buf"
  by (simp add: bitsOf_def)

lemma length_nbits [simp]: "length (nbits n v) = n"
  by (induction n) simp_all

lemma bits_val_Nil [simp]: "bits_val [] = 0"
  by (simp add: bits_val_def)

lemma foldl_bits_shift:
  "foldl (\<lambda>a b. 2 * a + (if b then 1 else 0)) a bs
     = a * 2 ^ length bs + foldl (\<lambda>a b. 2 * a + (if b then 1 else (0::nat))) 0 bs"
proof -
  define f :: "nat \<Rightarrow> bool \<Rightarrow> nat" where "f = (\<lambda>a b. 2 * a + (if b then 1 else 0))"
  have "foldl f a bs = a * 2 ^ length bs + foldl f 0 bs"
  proof (induction bs arbitrary: a)
    case Nil
    show ?case by simp
  next
    case (Cons b bs)
    have step: "f a b = 2 * a + f 0 b" by (simp add: f_def)
    have "foldl f a (b # bs) = f a b * 2 ^ length bs + foldl f 0 bs"
      using Cons.IH [of "f a b"] by simp
    also have "\<dots> = a * 2 ^ length (b # bs) + (f 0 b * 2 ^ length bs + foldl f 0 bs)"
      by (subst step) (simp add: algebra_simps)
    also have "f 0 b * 2 ^ length bs + foldl f 0 bs = foldl f 0 (b # bs)"
      using Cons.IH [of "f 0 b"] by simp
    finally show ?case .
  qed
  then show ?thesis by (simp add: f_def)
qed

lemma bits_val_Cons:
  "bits_val (b # bs) = (if b then 2 ^ length bs else 0) + bits_val bs"
  unfolding bits_val_def
  by (simp add: foldl_bits_shift [of "if b then 1 else 0"])

lemma bits_val_append:
  "bits_val (xs @ ys) = bits_val xs * 2 ^ length ys + bits_val ys"
  unfolding bits_val_def by (simp add: foldl_bits_shift [of "foldl _ _ xs"])

lemma bits_val_less: "bits_val bs < 2 ^ length bs"
  by (induction bs) (simp_all add: bits_val_Cons)

lemma bits_val_nbits: "bits_val (nbits n v) = take_bit n v"
  by (induction n) (simp_all add: bits_val_Cons take_bit_Suc_from_most)

lemma bits_val_single [simp]: "bits_val [b] = (if b then 1 else 0)"
  by (simp add: bits_val_Cons)

lemma ReadBits_bitsOf:
  "ReadBits buf pos n =
     (if 8 * length buf < pos + n then Inl NotEnoughBits
      else Inr (bits_val (take n (drop pos (bitsOf buf))), pos + n))"
  by (simp add: ReadBits_def bitsOf_def drop_map take_map drop_upt take_upt)

lemma ReadFlag_bitsOf:
  "ReadFlag buf pos =
     (if 8 * length buf < pos + 1 then Inl NotEnoughBits
      else Inr (bitsOf buf ! pos, pos + 1))"
  by (simp add: ReadFlag_def bitsOf_def)

lemma bit_at_put_bit:
  assumes "i < 8 * length buf" "j < 8 * length buf"
  shows "bit_at (put_bit buf i b) j = (if j = i then b else bit_at buf j)"
proof (cases "j div 8 = i div 8")
  case True
  have eq: "j = i \<longleftrightarrow> j mod 8 = i mod 8"
    using True by (metis div_mult_mod_eq)
  have "j mod 8 < 8" "i mod 8 < 8"
    by simp_all
  then have "7 - j mod 8 = 7 - i mod 8 \<longleftrightarrow> j mod 8 = i mod 8"
    by linarith
  with assms True eq show ?thesis
    by (auto simp: bit_at_def put_bit_def bit_set_bit_iff bit_unset_bit_iff)
next
  case False
  then have "j \<noteq> i" by auto
  with assms False show ?thesis
    by (simp add: bit_at_def put_bit_def)
qed

lemma length_put_bit [simp]: "length (put_bit buf i b) = length buf"
  by (simp add: put_bit_def)

lemma bitsOf_put_bit:
  "i < 8 * length buf \<Longrightarrow> bitsOf (put_bit buf i b) = (bitsOf buf)[i := b]"
  by (rule nth_equalityI) (simp_all add: bitsOf_def bit_at_put_bit nth_list_update)

lemma length_write_field [simp]: "length (write_field buf pos bs) = length buf"
  by (induction bs arbitrary: buf pos) simp_all

lemma bitsOf_write_field:
  "pos + length bs \<le> 8 * length buf \<Longrightarrow>
   bitsOf (write_field buf pos bs)
     = take pos (bitsOf buf) @ bs @ drop (pos + length bs) (bitsOf buf)"
proof (induction bs arbitrary: buf pos)
  case Nil
  show ?case by simp
next
  case (Cons b bs)
  let ?B = "bitsOf buf"
  have pos: "pos < length ?B" using Cons.prems by simp
  have fits: "Suc pos + length bs \<le> 8 * length (put_bit buf pos b)"
    using Cons.prems by simp
  have upd: "bitsOf (put_bit buf pos b) = ?B[pos := b]"
    using pos by (simp add: bitsOf_put_bit)
  have "bitsOf (write_field buf pos (b # bs))
          = take (Suc pos) (?B[pos := b]) @ bs @ drop (Suc pos + length bs) (?B[pos := b])"
    using Cons.IH [OF fits] by (simp only: write_field.simps upd)
  also have "take (Suc pos) (?B[pos := b]) = take pos ?B @ [b]"
    using pos by (simp add: take_Suc_conv_app_nth)
  also have "drop (Suc pos + length bs) (?B[pos := b]) = drop (pos + length (b # bs)) ?B"
    by (simp add: drop_update_cancel)
  finally show ?case by simp
qed

lemma bitsOf_zero: "bitsOf (replicate m 0) = replicate (8 * m) False"
  by (rule nth_equalityI) (simp_all add: bitsOf_def bit_at_def)

section \<open>What the encoder writes\<close>

lemma emits_WriteBits:
  assumes "bitsOf buf = w @ replicate k False" "n \<le> k"
  shows "emits (WriteBits buf (length w) v n) (w @ nbits n v) (k - n)"
proof -
  have len: "8 * length buf = length w + k"
    using assms(1) by (metis length_bitsOf length_append length_replicate)
  then have fits: "length w + n \<le> 8 * length buf" using assms(2) by simp
  have "bitsOf (write_field buf (length w) (nbits n v))
          = (w @ nbits n v) @ replicate (k - n) False"
    using fits assms by (simp add: bitsOf_write_field)
  then show ?thesis
    using fits by (simp add: emits_def WriteBits_def)
qed

lemma emits_bind:
  assumes "emits r w k"
    and "\<And>buf. bitsOf buf = w @ replicate k False \<Longrightarrow> emits (f (buf, length w)) w' k'"
  shows "emits (bind_err r f) w' k'"
  using assms by (auto simp: emits_def bind_err_def)

lemma emits_init: "emits (Inr (replicate m 0, 0)) [] (8 * m)"
  by (simp add: emits_def bitsOf_zero)

lemma length_rateBits: "length (rateBits r) = (case reverseSampleRates r of None \<Rightarrow> 28 | Some _ \<Rightarrow> 4)"
  by (simp add: rateBits_def split: option.split)

lemma length_typeBits [simp]: "length (typeBits c) = 5"
  by (simp add: typeBits_def)

lemma length_channelBits [simp]: "length (channelBits c) = 4"
  by (simp add: channelBits_def)

lemma length_extensionBits:
  "length (extensionBits c) = (if hasExtension c then length (rateBits (ExtensionSampleRate c)) + 5 else 0)"
  by (simp add: extensionBits_def)

lemma length_flagBits: "length (flagBits c) = (if DependsOnCoreCoder c then 17 else 3)"
  by (simp add: flagBits_def)

lemma length_layout: "length (layout c) = marshalSizeBits c"
  by (simp add: layout_def marshalSizeBits_def length_rateBits length_extensionBits
        length_flagBits split: option.split)

lemma marshalType_emits:
  assumes "bitsOf buf = w @ replicate k False" "5 \<le> k"
  shows "emits (marshalType c buf (length w)) (w @ typeBits c) (k - 5)"
  using emits_WriteBits [OF assms] by (simp add: marshalType_def typeBits_def)

lemma write_rate_emits:
  assumes "bitsOf buf = w @ replicate k False" "length (rateBits r) \<le> k"
  shows "emits
     (case reverseSampleRates r of
        None \<Rightarrow> bind_err (WriteBits buf (length w) 15 4) (\<lambda>(buf, pos). WriteBits buf pos (uint64 r) 24)
      | Some sampleRateIndex \<Rightarrow> WriteBits buf (length w) (uint64 sampleRateIndex) 4)
     (w @ rateBits r) (k - length (rateBits r))"
proof (cases "reverseSampleRates r")
  case None
  have k: "28 \<le> k" using assms(2) None by (simp add: length_rateBits)
  have "emits (WriteBits buf (length w) 15 4) (w @ nbits 4 15) (k - 4)"
    using k by (intro emits_WriteBits assms(1)) simp
  then have "emits (bind_err (WriteBits buf (length w) 15 4) (\<lambda>(buf, pos). WriteBits buf pos (uint64 r) 24))
      ((w @ nbits 4 15) @ nbits 24 (uint64 r)) (k - 4 - 24)"
  proof (rule emits_bind)
    fix b assume "bitsOf b = (w @ nbits 4 15) @ replicate (k - 4) False"
    from emits_WriteBits [OF this, of 24 "uint64 r"] k
    show "emits (case (b, length (w @ nbits 4 15)) of (buf, pos) \<Rightarrow> WriteBits buf pos (uint64 r) 24)
      ((w @ nbits 4 15) @ nbits 24 (uint64 r)) (k - 4 - 24)"
      by simp
  qed
  then show ?thesis using None by (simp add: rateBits_def)
next
  case (Some i)
  have "4 \<le> k" using assms(2) Some by (simp add: length_rateBits)
  from emits_WriteBits [OF assms(1) this, of "uint64 i"] Some
  show ?thesis by (simp add: rateBits_def)
qed

lemma marshalSampleRate_emits:
  assumes "bitsOf buf = w @ replicate k False" "length (rateBits (SampleRate c)) \<le> k"
  shows "emits (marshalSampleRate c buf (length w)) (w @ rateBits (SampleRate c))
           (k - length (rateBits (SampleRate c)))"
  using write_rate_emits [OF assms] by (simp add: marshalSampleRate_def)

lemma marshalChannelConfig_emits:
  assumes "bitsOf buf = w @ replicate k False" "4 \<le> k" "validChannelCount (ChannelCount c)"
  shows "emits (marshalChannelConfig c buf (length w)) (w @ channelBits c) (k - 4)"
  using emits_WriteBits [OF assms(1,2)] assms(3)
  by (auto simp: marshalChannelConfig_def channelBits_def bind_err_def validChannelCount_def)

lemma marshalChannelConfig_invalid:
  "\<not> validChannelCount (ChannelCount c) \<Longrightarrow>
   marshalChannelConfig c buf pos = Inl (InvalidChannelCount (ChannelCount c))"
  by (auto simp: marshalChannelConfig_def bind_err_def validChannelCount_def)

lemma marshalExtension_emits:
  assumes "bitsOf buf = w @ replicate k False" "length (extensionBits c) \<le> k"
  shows "emits (marshalExtension c buf (length w)) (w @ extensionBits c)
           (k - length (extensionBits c))"
proof (cases "hasExtension c")
  case True
  let ?r = "rateBits (ExtensionSampleRate c)"
  have k: "length ?r + 5 \<le> k" using assms(2) True by (simp add: length_extensionBits)
  then have "length ?r \<le> k" by simp
  from write_rate_emits [OF assms(1) this]
  have "emits (bind_err
     (case reverseSampleRates (ExtensionSampleRate c) of
        None \<Rightarrow> bind_err (WriteBits buf (length w) 15 4)
                 (\<lambda>(buf, pos). WriteBits buf pos (uint64 (ExtensionSampleRate c)) 24)
      | Some sampleRateIndex \<Rightarrow> WriteBits buf (length w) (uint64 sampleRateIndex) 4)
     (\<lambda>(buf, pos). WriteBits buf pos (uint64 (Type c)) 5))
     ((w @ ?r) @ nbits 5 (uint64 (Type c))) (k - length ?r - 5)"
  proof (rule emits_bind)
    fix b assume "bitsOf b = (w @ ?r) @ replicate (k - length ?r) False"
    from emits_WriteBits [OF this, of 5 "uint64 (Type c)"] k
    show "emits (case (b, length (w @ ?r)) of (buf, pos) \<Rightarrow> WriteBits buf pos (uint64 (Type c)) 5)
      ((w @ ?r) @ nbits 5 (uint64 (Type c))) (k - length ?r - 5)"
      by simp
  qed
  then show ?thesis using True by (simp add: marshalExtension_def extensionBits_def)
next
  case False
  then show ?thesis using assms(1) by (simp add: marshalExtension_def extensionBits_def emits_def)
qed

lemma emits_flag:
  assumes "bitsOf buf = w @ replicate k False" "1 \<le> k"
  shows "emits (if f then WriteBits buf (length w) 1 1 else WriteBits buf (length w) 0 1)
           (w @ [f]) (k - 1)"
proof (cases f)
  case True
  have "nbits 1 1 = [True]" by (simp add: bit_0)
  with emits_WriteBits [OF assms, of 1] True show ?thesis by simp
next
  case False
  have "nbits 1 0 = [False]" by simp
  with emits_WriteBits [OF assms, of 0] False show ?thesis by simp
qed

lemma emits_skip:
  assumes "bitsOf buf = w @ replicate k False" "1 \<le> k"
  shows "emits (Inr (buf, length w + 1)) (w @ [False]) (k - 1)"
proof -
  have "replicate k False = False # replicate (k - 1) False"
    using assms(2) by (cases k) simp_all
  then show ?thesis using assms(1) by (simp add: emits_def)
qed

lemma marshalFlags_emits:
  assumes "bitsOf buf = w @ replicate k False" "length (flagBits c) \<le> k"
  shows "emits (marshalFlags c buf (length w)) (w @ flagBits c) (k - length (flagBits c))"
proof -
  let ?d = "if DependsOnCoreCoder c then nbits 14 (unat (CoreCoderDelay c)) else []"
  have k: "2 + length ?d + 1 \<le> k"
    using assms(2) by (simp add: flagBits_def)
  let ?w1 = "w @ [FrameLengthFlag c]"
  let ?w2 = "?w1 @ [DependsOnCoreCoder c]"
  let ?w3 = "?w2 @ ?d"
  have s3: "emits (if DependsOnCoreCoder c
                   then WriteBits b (length ?w2) (unat (CoreCoderDelay c)) 14
                   else Inr (b, length ?w2)) ?w3 (k - 1 - 1 - length ?d)"
    if b: "bitsOf b = ?w2 @ replicate (k - 1 - 1) False" for b
  proof (cases "DependsOnCoreCoder c")
    case True
    then have "14 \<le> k - 1 - 1" using k by simp
    from emits_WriteBits [OF b this, of "unat (CoreCoderDelay c)"] True
    show ?thesis by simp
  next
    case False
    then show ?thesis using b by (simp add: emits_def)
  qed
  have "emits (marshalFlags c buf (length w)) (?w3 @ [False]) (k - 1 - 1 - length ?d - 1)"
    unfolding marshalFlags_def
    apply (rule emits_bind [OF emits_flag [OF assms(1)]])
    using k apply simp
    apply (simp only: prod.case)
    apply (rule emits_bind [OF emits_flag], assumption)
    using k apply simp
    apply (simp only: prod.case)
    apply (rule emits_bind [OF s3], assumption)
    apply (simp only: prod.case)
    apply (rule emits_skip, assumption)
    using k apply simp
    done
  moreover have "?w3 @ [False] = w @ flagBits c" by (simp add: flagBits_def)
  moreover have "k - 1 - 1 - length ?d - 1 = k - length (flagBits c)" by (simp add: flagBits_def)
  ultimately show ?thesis by simp
qed

lemma marshalTo_emits:
  assumes "bitsOf buf = w @ replicate k False" "marshalSizeBits c \<le> k"
    "validChannelCount (ChannelCount c)"
  shows "emits (marshalTo c buf (length w)) (w @ layout c) (k - marshalSizeBits c)"
proof -
  let ?r = "rateBits (SampleRate c)"
  let ?e = "extensionBits c"
  let ?f = "flagBits c"
  have total: "5 + length ?r + 4 + length ?e + length ?f \<le> k"
    using assms(2) by (simp add: length_layout [symmetric] layout_def)
  let ?w1 = "w @ typeBits c"
  let ?w2 = "?w1 @ ?r"
  let ?w3 = "?w2 @ channelBits c"
  let ?w4 = "?w3 @ ?e"
  have "emits (marshalTo c buf (length w)) (?w4 @ ?f)
          (k - 5 - length ?r - 4 - length ?e - length ?f)"
    unfolding marshalTo_def
    apply (rule emits_bind [OF marshalType_emits [OF assms(1)]])
    using total apply simp
    apply (simp only: prod.case)
    apply (rule emits_bind [OF marshalSampleRate_emits], assumption)
    using total apply simp
    apply (simp only: prod.case)
    apply (rule emits_bind [OF marshalChannelConfig_emits], assumption)
    using total apply simp
     apply (rule assms(3))
    apply (simp only: prod.case)
    apply (rule emits_bind [OF marshalExtension_emits], assumption)
    using total apply simp
    apply (simp only: prod.case)
    apply (rule marshalFlags_emits, assumption)
    using total apply simp
    done
  moreover have "?w4 @ ?f = w @ layout c" by (simp add: layout_def)
  moreover have "k - 5 - length ?r - 4 - length ?e - length ?f = k - marshalSizeBits c"
    by (simp add: length_layout [symmetric] layout_def)
  ultimately show ?thesis by simp
qed

section \<open>What the decoder reads from an encoded record\<close>

lemma ReadBits_prefix:
  assumes "drop pos (bitsOf buf) = fld @ rest" "length fld = n" "0 < n"
  shows "ReadBits buf pos n = Inr (bits_val fld, pos + n)"
proof -
  have "length (drop pos (bitsOf buf)) = n + length rest"
    using assms(1,2) by simp
  then have "pos + n \<le> 8 * length buf"
    using assms(3) by simp
  then show ?thesis
    using assms(1,2) by (simp add: ReadBits_bitsOf)
qed

lemma ReadFlag_prefix:
  assumes "drop pos (bitsOf buf) = b # rest"
  shows "ReadFlag buf pos = Inr (b, pos + 1)"
proof -
  have "length (drop pos (bitsOf buf)) = Suc (length rest)"
    using assms by simp
  then have "pos + 1 \<le> 8 * length buf" by simp
  moreover have "bitsOf buf ! pos = b"
    using assms by (rule nth_via_drop)
  ultimately show ?thesis by (simp add: ReadFlag_bitsOf)
qed

lemma drop_advance:
  assumes "drop pos xs = fld @ rest"
  shows "drop (pos + length fld) xs = rest"
proof -
  have "drop (length fld + pos) xs = drop (length fld) (drop pos xs)"
    by (simp only: drop_drop)
  then show ?thesis using assms by (simp add: add.commute)
qed

lemma uint64_small: "0 \<le> x \<Longrightarrow> x < 2 ^ 64 \<Longrightarrow> uint64 x = nat x"
  by (simp add: uint64_def)

lemma take_bit_uint64:
  "n \<le> 64 \<Longrightarrow> int (take_bit n (uint64 x)) = x mod 2 ^ n"
proof -
  assume n: "n \<le> 64"
  have "int (take_bit n (uint64 x)) = take_bit n (take_bit 64 x)"
    by (simp add: uint64_def take_bit_eq_mod nat_mod_distrib nat_power_eq zmod_int)
  also have "\<dots> = take_bit n x"
    using n by (simp add: min_def)
  finally show ?thesis by (simp add: take_bit_eq_mod)
qed

lemma reverseSampleRates_Some:
  assumes "reverseSampleRates r = Some i"
  shows "0 \<le> i \<and> i \<le> 12 \<and> sampleRates ! nat i = r"
  using assms
  by (auto simp: reverseSampleRates_def sampleRates_def split: if_splits)

lemma sampleRates_reverse:
  "i \<le> 12 \<Longrightarrow> reverseSampleRates (sampleRates ! i) = Some (int i)"
proof -
  assume "i \<le> 12"
  then have "i \<in> {0,1,2,3,4,5,6,7,8,9,10,11,12}" by (simp add: le_Suc_eq numeral_eq_Suc)
  then show ?thesis
    by (auto simp: reverseSampleRates_def sampleRates_def)
qed


lemma unmarshalType_layout:
  assumes "drop pos (bitsOf buf) = nbits 5 t @ rest"
    and "take_bit 5 t = 2 \<or> take_bit 5 t = 5 \<or> take_bit 5 t = 29"
  shows "unmarshalType c0 buf pos = Inr (c0\<lparr>Type := int (take_bit 5 t)\<rparr>, pos + 5)"
proof -
  have "ReadBits buf pos 5 = Inr (take_bit 5 t, pos + 5)"
    using ReadBits_prefix [OF assms(1)] by (simp add: bits_val_nbits)
  then show ?thesis
    using assms(2)
    by (auto simp: unmarshalType_def ObjectTypeAACLC_def ObjectTypeSBR_def ObjectTypePS_def)
qed

lemma unmarshalSampleRate_layout:
  assumes "drop pos (bitsOf buf) = rateBits r @ rest"
  shows "unmarshalSampleRate c0 buf pos
           = Inr (c0\<lparr>SampleRate := readRate r\<rparr>, pos + length (rateBits r))"
proof (cases "reverseSampleRates r")
  case None
  then have d: "drop pos (bitsOf buf) = nbits 4 15 @ (nbits 24 (uint64 r) @ rest)"
    using assms by (simp add: rateBits_def)
  have r1: "ReadBits buf pos 4 = Inr (15, pos + 4)"
    using ReadBits_prefix [OF d] by (simp add: bits_val_nbits)
  have "drop (pos + 4) (bitsOf buf) = nbits 24 (uint64 r) @ rest"
    using drop_advance [OF d] by simp
  from ReadBits_prefix [OF this]
  have r2: "ReadBits buf (pos + 4) 24 = Inr (take_bit 24 (uint64 r), pos + 4 + 24)"
    by (simp add: bits_val_nbits)
  show ?thesis
    using None r1 r2
    by (simp add: unmarshalSampleRate_def readRate_def rateBits_def take_bit_uint64)
next
  case (Some i)
  from reverseSampleRates_Some [OF Some]
  have i: "0 \<le> i" "i \<le> 12" "sampleRates ! nat i = r" by simp_all
  then have u: "uint64 i = nat i" by (simp add: uint64_small)
  have "nat i < 2 ^ 4" using i by simp
  then have t: "take_bit 4 (nat i) = nat i" by (simp only: take_bit_nat_eq_self)
  have d: "drop pos (bitsOf buf) = nbits 4 (nat i) @ rest"
    using assms Some u by (simp add: rateBits_def)
  have r1: "ReadBits buf pos 4 = Inr (nat i, pos + 4)"
    using ReadBits_prefix [OF d] t by (simp add: bits_val_nbits)
  show ?thesis
    using Some r1 i
    by (simp add: unmarshalSampleRate_def readRate_def rateBits_def)
qed

lemma validChannelCount_cases:
  "validChannelCount n \<longleftrightarrow> n = 1 \<or> n = 2 \<or> n = 3 \<or> n = 4 \<or> n = 5 \<or> n = 6 \<or> n = 8"
  by (auto simp: validChannelCount_def)

lemma unmarshalChannelConfig_layout:
  assumes "drop pos (bitsOf buf) = channelBits c @ rest"
    and "validChannelCount (ChannelCount c)"
  shows "unmarshalChannelConfig c0 buf pos
           = Inr (c0\<lparr>ChannelCount := ChannelCount c\<rparr>, pos + 4)"
proof -
  let ?code = "if ChannelCount c = 8 then 7 else ChannelCount c"
  have "ReadBits buf pos 4 = Inr (take_bit 4 (uint64 ?code), pos + 4)"
    using ReadBits_prefix [OF assms(1) [unfolded channelBits_def]]
    by (simp add: bits_val_nbits)
  moreover have "take_bit 4 (uint64 ?code) = nat ?code \<and> 1 \<le> ?code \<and> ?code \<le> 7"
    using assms(2) unfolding validChannelCount_cases
    by (auto simp: uint64_small take_bit_eq_mod)
  ultimately show ?thesis
    using assms(2) unfolding validChannelCount_cases
    by (auto simp: unmarshalChannelConfig_def)
qed

lemma read_second_type:
  assumes "drop pos (bitsOf buf) = nbits 5 (uint64 ObjectTypeAACLC) @ rest"
  shows "ReadBits buf pos 5 = Inr (2, pos + 5)"
proof -
  have "take_bit 5 (uint64 ObjectTypeAACLC) = 2"
    by (simp add: ObjectTypeAACLC_def uint64_small take_bit_eq_mod)
  then show ?thesis
    using ReadBits_prefix [OF assms] by (simp add: bits_val_nbits)
qed

lemma unmarshalExtension_layout:
  assumes "drop pos (bitsOf buf) = extensionBits c @ rest"
    and "hasExtension c" "Type c = ObjectTypeAACLC" "Type c0 = ExtensionType c"
  shows "unmarshalExtension c0 buf pos
           = Inr (c0\<lparr>ExtensionType := ExtensionType c,
                      ExtensionSampleRate := readRate (ExtensionSampleRate c),
                      Type := ObjectTypeAACLC\<rparr>, pos + length (extensionBits c))"
proof (cases "reverseSampleRates (ExtensionSampleRate c)")
  case None
  let ?r = "ExtensionSampleRate c"
  have d: "drop pos (bitsOf buf)
             = nbits 4 15 @ (nbits 24 (uint64 ?r) @ nbits 5 (uint64 ObjectTypeAACLC) @ rest)"
    using assms(1,2,3) None by (simp add: extensionBits_def rateBits_def)
  have r1: "ReadBits buf pos 4 = Inr (15, pos + 4)"
    using ReadBits_prefix [OF d] by (simp add: bits_val_nbits)
  have d2: "drop (pos + 4) (bitsOf buf)
              = nbits 24 (uint64 ?r) @ (nbits 5 (uint64 ObjectTypeAACLC) @ rest)"
    using drop_advance [OF d] by simp
  from ReadBits_prefix [OF this]
  have r2: "ReadBits buf (pos + 4) 24 = Inr (take_bit 24 (uint64 ?r), pos + 28)"
    by (simp add: bits_val_nbits)
  have "drop (pos + 28) (bitsOf buf) = nbits 5 (uint64 ObjectTypeAACLC) @ rest"
    using drop_advance [OF d2] by (simp add: ac_simps)
  from read_second_type [OF this]
  have r3: "ReadBits buf (pos + 28) 5 = Inr (2, pos + 33)" by simp
  show ?thesis
    using None r1 r2 r3 assms(2,4)
    by (simp add: unmarshalExtension_def readRate_def rateBits_def extensionBits_def
          take_bit_uint64 hasExtension_def bind_err_def ObjectTypeAACLC_def)
next
  case (Some i)
  let ?r = "ExtensionSampleRate c"
  from reverseSampleRates_Some [OF Some]
  have i: "0 \<le> i" "i \<le> 12" "sampleRates ! nat i = ?r" by simp_all
  then have u: "uint64 i = nat i" by (simp add: uint64_small)
  have "nat i < 2 ^ 4" using i by simp
  then have t: "take_bit 4 (nat i) = nat i" by (simp only: take_bit_nat_eq_self)
  have d: "drop pos (bitsOf buf)
             = nbits 4 (nat i) @ (nbits 5 (uint64 ObjectTypeAACLC) @ rest)"
    using assms(1,2,3) Some u by (simp add: extensionBits_def rateBits_def)
  have r1: "ReadBits buf pos 4 = Inr (nat i, pos + 4)"
    using ReadBits_prefix [OF d] t by (simp add: bits_val_nbits)
  have "drop (pos + 4) (bitsOf buf) = nbits 5 (uint64 ObjectTypeAACLC) @ rest"
    using drop_advance [OF d] by simp
  from read_second_type [OF this]
  have r3: "ReadBits buf (pos + 4) 5 = Inr (2, pos + 9)" by simp
  have ni: "nat i \<le> 12" using i by simp
  show ?thesis
    using Some r1 r3 i(3) ni assms(2,4)
    by (simp add: unmarshalExtension_def readRate_def rateBits_def extensionBits_def
          hasExtension_def bind_err_def ObjectTypeAACLC_def Let_def)
qed

lemma unmarshalExtension_none:
  "Type c0 = ObjectTypeAACLC \<Longrightarrow> unmarshalExtension c0 buf pos = Inr (c0, pos)"
  by (simp add: unmarshalExtension_def ObjectTypeAACLC_def ObjectTypeSBR_def ObjectTypePS_def)

lemma of_nat_take_bit_unat: "(of_nat (take_bit n (unat w)) :: 'a::len word) = take_bit n w"
  by (simp add: unsigned_take_bit_eq [symmetric])

lemma unmarshalFlags_layout:
  assumes "drop pos (bitsOf buf) = flagBits c @ rest"
  shows "unmarshalFlags c0 buf pos
           = Inr (c0\<lparr>FrameLengthFlag := FrameLengthFlag c,
                      DependsOnCoreCoder := DependsOnCoreCoder c,
                      CoreCoderDelay := (if DependsOnCoreCoder c
                                         then take_bit 14 (CoreCoderDelay c)
                                         else CoreCoderDelay c0)\<rparr>,
                  pos + length (flagBits c))"
proof -
  let ?d = "if DependsOnCoreCoder c then nbits 14 (unat (CoreCoderDelay c)) else []"
  have d0: "drop pos (bitsOf buf)
              = [FrameLengthFlag c] @ ([DependsOnCoreCoder c] @ ?d @ [False] @ rest)"
    using assms by (simp add: flagBits_def)
  then have f1: "ReadFlag buf pos = Inr (FrameLengthFlag c, pos + 1)"
    by (intro ReadFlag_prefix) simp
  have d1: "drop (pos + 1) (bitsOf buf) = [DependsOnCoreCoder c] @ (?d @ [False] @ rest)"
    using drop_advance [OF d0] by simp
  then have f2: "ReadFlag buf (pos + 1) = Inr (DependsOnCoreCoder c, pos + 1 + 1)"
    by (intro ReadFlag_prefix) simp
  have d2: "drop (pos + 2) (bitsOf buf) = ?d @ ([False] @ rest)"
    using drop_advance [OF d1] by (simp add: ac_simps)
  show ?thesis
  proof (cases "DependsOnCoreCoder c")
    case True
    then have d2': "drop (pos + 2) (bitsOf buf)
                      = nbits 14 (unat (CoreCoderDelay c)) @ ([False] @ rest)"
      using d2 by simp
    from ReadBits_prefix [OF this]
    have r: "ReadBits buf (pos + 2) 14 = Inr (take_bit 14 (unat (CoreCoderDelay c)), pos + 16)"
      by (simp add: bits_val_nbits)
    have "drop (pos + 16) (bitsOf buf) = False # rest"
      using drop_advance [OF d2'] by (simp add: ac_simps)
    from ReadFlag_prefix [OF this]
    have f3: "ReadFlag buf (pos + 16) = Inr (False, pos + 17)" by simp
    show ?thesis
      using True f1 f2 r f3
      by (simp add: unmarshalFlags_def bind_err_def flagBits_def of_nat_take_bit_unat)
  next
    case False
    then have "drop (pos + 2) (bitsOf buf) = False # rest"
      using d2 by simp
    from ReadFlag_prefix [OF this]
    have f3: "ReadFlag buf (pos + 2) = Inr (False, pos + 3)" by simp
    show ?thesis
      using False f1 f2 f3
      by (simp add: unmarshalFlags_def bind_err_def flagBits_def)
  qed
qed

lemma ceil8: "(if n mod 8 \<noteq> 0 then n div 8 + 1 else n div 8) = (n + 7) div (8::nat)"
proof -
  obtain q r where n: "n = 8 * q + r" "r < 8"
    by (metis mod_less_divisor mult_div_mod_eq zero_less_numeral)
  have "(r + 7) div 8 = (if r = 0 then 0 else 1)"
    using n(2) by (simp add: div_nat_eqI)
  moreover have "(8 * q + r + 7) div 8 = q + (r + 7) div 8"
    by (simp add: add.assoc)
  ultimately show ?thesis
    using n by simp
qed

lemma marshalSize_ceil: "marshalSize c = (marshalSizeBits c + 7) div 8"
  using ceil8 [of "marshalSizeBits c"] by (simp add: marshalSize_def Let_def)

lemma marshalSizeBits_le: "marshalSizeBits c \<le> 8 * marshalSize c"
  by (simp add: marshalSize_ceil)

lemma marshalTo_fresh:
  assumes "validChannelCount (ChannelCount c)"
  shows "\<exists>enc. marshalTo c (replicate (marshalSize c) 0) 0 = Inr (enc, marshalSizeBits c)
           \<and> length enc = marshalSize c
           \<and> bitsOf enc
               = layout c @ replicate (8 * marshalSize c - marshalSizeBits c) False"
proof -
  have z: "bitsOf (replicate (marshalSize c) 0) = [] @ replicate (8 * marshalSize c) False"
    by (simp add: bitsOf_zero)
  from marshalTo_emits [OF z marshalSizeBits_le assms]
  obtain enc where enc: "marshalTo c (replicate (marshalSize c) 0) 0 = Inr (enc, marshalSizeBits c)"
    "bitsOf enc = layout c @ replicate (8 * marshalSize c - marshalSizeBits c) False"
    by (auto simp: emits_def length_layout)
  have "length (bitsOf enc) = 8 * marshalSize c"
    using marshalSizeBits_le [of c] by (simp only: enc(2)) (simp add: length_layout)
  then have "length enc = marshalSize c" by simp
  with enc show ?thesis by blast
qed

lemma Marshal_valid:
  assumes "validChannelCount (ChannelCount c)"
  shows "\<exists>enc. Marshal c = Inr enc \<and> length enc = marshalSize c
           \<and> bitsOf enc
               = layout c @ replicate (8 * marshalSize c - marshalSizeBits c) False"
  using marshalTo_fresh [OF assms] by (auto simp: Marshal_def)

lemma Marshal_invalid:
  assumes "\<not> validChannelCount (ChannelCount c)"
  shows "Marshal c = Inl (InvalidChannelCount (ChannelCount c))"
proof -
  let ?m = "marshalSize c"
  let ?r = "rateBits (SampleRate c)"
  have z: "bitsOf (replicate ?m 0) = [] @ replicate (8 * ?m) False"
    by (simp add: bitsOf_zero)
  have "5 + length ?r \<le> marshalSizeBits c"
    by (simp add: length_layout [symmetric] layout_def)
  then have k: "5 + length ?r \<le> 8 * ?m"
    using marshalSizeBits_le [of c] by simp
  then have "5 \<le> 8 * ?m" by simp
  from marshalType_emits [OF z this, of c]
  obtain b1 where b1: "marshalType c (replicate ?m 0) 0 = Inr (b1, length (typeBits c))"
    "bitsOf b1 = typeBits c @ replicate (8 * ?m - 5) False"
    by (auto simp: emits_def)
  have "length ?r \<le> 8 * ?m - 5" using k by simp
  from marshalSampleRate_emits [OF b1(2) this]
  obtain b2 where b2: "marshalSampleRate c b1 (length (typeBits c)) = Inr (b2, length (typeBits c @ ?r))"
    by (auto simp: emits_def)
  show ?thesis
    using b1(1) b2 marshalChannelConfig_invalid [OF assms]
    by (simp add: Marshal_def marshalTo_def bind_err_def)
qed

lemma Marshal_error_iff:
  "(\<exists>e. Marshal c = Inl e) \<longleftrightarrow> \<not> validChannelCount (ChannelCount c)"
  using Marshal_valid [of c] Marshal_invalid [of c] by auto

lemma UnmarshalFromPos_layout:
  assumes "drop pos (bitsOf buf) = layout c @ rest"
    and "Type c = ObjectTypeAACLC" "validChannelCount (ChannelCount c)"
  shows "UnmarshalFromPos zeroConfig buf pos = Inr (readBack c, pos + marshalSizeBits c)"
proof -
  let ?t = "if hasExtension c then ExtensionType c else Type c"
  let ?r = "rateBits (SampleRate c)"
  let ?e = "extensionBits c"
  let ?f = "flagBits c"
  have t: "?t = 2 \<or> ?t = 5 \<or> ?t = 29"
    using assms(2)
    by (auto simp: hasExtension_def ObjectTypeAACLC_def ObjectTypeSBR_def ObjectTypePS_def)
  then have tb: "int (take_bit 5 (uint64 ?t)) = ?t"
    by (auto simp: take_bit_uint64)
  have d1: "drop pos (bitsOf buf) = nbits 5 (uint64 ?t) @ (?r @ channelBits c @ ?e @ ?f @ rest)"
    using assms(1) by (simp add: layout_def typeBits_def)
  have "take_bit 5 (uint64 ?t) = 2 \<or> take_bit 5 (uint64 ?t) = 5 \<or> take_bit 5 (uint64 ?t) = 29"
    using t tb by (metis of_nat_numeral of_nat_eq_iff)
  from unmarshalType_layout [OF d1 this, of zeroConfig]
  have s1: "unmarshalType zeroConfig buf pos = Inr (zeroConfig\<lparr>Type := ?t\<rparr>, pos + 5)"
    by (simp only: tb)
  let ?c1 = "zeroConfig\<lparr>Type := ?t\<rparr>"
  have d2: "drop (pos + 5) (bitsOf buf) = ?r @ (channelBits c @ ?e @ ?f @ rest)"
    using drop_advance [OF d1] by simp
  from unmarshalSampleRate_layout [OF d2, of ?c1]
  have s2: "unmarshalSampleRate ?c1 buf (pos + 5)
              = Inr (?c1\<lparr>SampleRate := readRate (SampleRate c)\<rparr>, pos + 5 + length ?r)" .
  let ?c2 = "?c1\<lparr>SampleRate := readRate (SampleRate c)\<rparr>"
  have d3: "drop (pos + 5 + length ?r) (bitsOf buf) = channelBits c @ (?e @ ?f @ rest)"
    using drop_advance [OF d2] by simp
  from unmarshalChannelConfig_layout [OF d3 assms(3), of ?c2]
  have s3: "unmarshalChannelConfig ?c2 buf (pos + 5 + length ?r)
              = Inr (?c2\<lparr>ChannelCount := ChannelCount c\<rparr>, pos + 5 + length ?r + 4)" .
  let ?c3 = "?c2\<lparr>ChannelCount := ChannelCount c\<rparr>"
  have d4: "drop (pos + 5 + length ?r + 4) (bitsOf buf) = ?e @ (?f @ rest)"
    using drop_advance [OF d3] by simp
  have d5: "drop (pos + 5 + length ?r + 4 + length ?e) (bitsOf buf) = ?f @ rest"
    using drop_advance [OF d4] by simp
  have size: "marshalSizeBits c = 5 + length ?r + 4 + length ?e + length ?f"
    by (simp add: length_layout [symmetric] layout_def)
  show ?thesis
  proof (cases "hasExtension c")
    case True
    have "Type ?c3 = ExtensionType c" using True by simp
    from unmarshalExtension_layout [OF d4 True assms(2) this]
    have s4: "unmarshalExtension ?c3 buf (pos + 5 + length ?r + 4)
                = Inr (?c3\<lparr>ExtensionType := ExtensionType c,
                      ExtensionSampleRate := readRate (ExtensionSampleRate c),
                      Type := ObjectTypeAACLC\<rparr>, pos + 5 + length ?r + 4 + length ?e)" .
    show ?thesis
      using True s1 s2 s3 s4 unmarshalFlags_layout [OF d5]
      by (simp add: UnmarshalFromPos_def bind_err_def size readBack_def zeroConfig_def)
  next
    case False
    have e: "?e = []" using False by (simp add: extensionBits_def)
    have "Type ?c3 = ObjectTypeAACLC" using False assms(2) by simp
    from unmarshalExtension_none [OF this]
    have s4: "unmarshalExtension ?c3 buf (pos + 5 + length ?r + 4)
                = Inr (?c3, pos + 5 + length ?r + 4)" .
    show ?thesis
      using False s1 s2 s3 s4 unmarshalFlags_layout [OF d5] assms(2)
      by (simp add: UnmarshalFromPos_def bind_err_def size readBack_def zeroConfig_def e)
  qed
qed

lemma Unmarshal_Marshal:
  assumes "Type c = ObjectTypeAACLC" "validChannelCount (ChannelCount c)"
  shows "\<exists>enc. Marshal c = Inr enc
           \<and> UnmarshalFromPos zeroConfig enc 0 = Inr (readBack c, marshalSizeBits c)"
proof -
  from Marshal_valid [OF assms(2)] obtain enc where
    enc: "Marshal c = Inr enc"
      "bitsOf enc = layout c @ replicate (8 * marshalSize c - marshalSizeBits c) False"
    by blast
  have "drop 0 (bitsOf enc) = layout c @ replicate (8 * marshalSize c - marshalSizeBits c) False"
    using enc(2) by simp
  from UnmarshalFromPos_layout [OF this assms]
  show ?thesis using enc(1) by simp
qed

section \<open>The records that the decoder produces\<close>

lemma ReadBits_Inr:
  assumes "ReadBits buf pos n = Inr (x, p)"
  shows "p = pos + n \<and> x < 2 ^ n \<and> pos + n \<le> 8 * length buf"
proof -
  have fits: "pos + n \<le> 8 * length buf"
    using assms by (simp add: ReadBits_def split: if_splits)
  then have "x = bits_val (take n (drop pos (bitsOf buf)))" "p = pos + n"
    using assms by (simp_all add: ReadBits_bitsOf)
  moreover have "length (take n (drop pos (bitsOf buf))) = n"
    using fits by simp
  ultimately show ?thesis
    using bits_val_less [of "take n (drop pos (bitsOf buf))"] fits by simp
qed

lemma readRate_table: "i \<le> 12 \<Longrightarrow> readRate (sampleRates ! i) = sampleRates ! i"
  by (simp add: readRate_def sampleRates_reverse)

lemma readRate_small: "0 \<le> r \<Longrightarrow> r < 2 ^ 24 \<Longrightarrow> readRate r = r"
  by (simp add: readRate_def split: option.split)

lemma readRate_nat: "x < 2 ^ 24 \<Longrightarrow> readRate (int x) = int x"
  by (rule readRate_small) simp_all

lemma unmarshalType_post:
  assumes "unmarshalType c buf pos = Inr (c1, p1)"
  shows "c1 = c\<lparr>Type := Type c1\<rparr> \<and> (Type c1 = 2 \<or> Type c1 = 5 \<or> Type c1 = 29)"
  using assms
  by (auto simp: unmarshalType_def Let_def ObjectTypeAACLC_def ObjectTypeSBR_def
        ObjectTypePS_def split: sum.splits if_splits)

lemma unmarshalSampleRate_post:
  assumes "unmarshalSampleRate c buf pos = Inr (c2, p2)"
  shows "c2 = c\<lparr>SampleRate := SampleRate c2\<rparr> \<and> readRate (SampleRate c2) = SampleRate c2"
proof (cases "ReadBits buf pos 4")
  case (Inl e)
  then show ?thesis using assms by (simp add: unmarshalSampleRate_def)
next
  case (Inr ip)
  obtain i p where ip: "ip = (i, p)" by (cases ip)
  show ?thesis
  proof (cases "i \<le> 12")
    case True
    then have "c2 = c\<lparr>SampleRate := sampleRates ! i\<rparr>"
      using assms Inr ip by (simp add: unmarshalSampleRate_def)
    then show ?thesis using True readRate_table by simp
  next
    case False
    show ?thesis
    proof (cases "ReadBits buf p 24")
      case (Inl e)
      then show ?thesis
        using assms Inr ip False by (simp add: unmarshalSampleRate_def split: if_splits)
    next
      case r: (Inr tq)
      obtain tmp q where tq: "tq = (tmp, q)" by (cases tq)
      have "tmp < 2 ^ 24" using ReadBits_Inr [of buf p 24 tmp q] r tq by simp
      then have "readRate (int tmp) = int tmp" by (rule readRate_nat)
      moreover have "c2 = c\<lparr>SampleRate := int tmp\<rparr>"
        using assms Inr ip False r tq by (simp add: unmarshalSampleRate_def split: if_splits)
      ultimately show ?thesis by simp
    qed
  qed
qed

lemma unmarshalChannelConfig_post:
  assumes "unmarshalChannelConfig c buf pos = Inr (c3, p3)"
  shows "c3 = c\<lparr>ChannelCount := ChannelCount c3\<rparr> \<and> validChannelCount (ChannelCount c3)"
  using assms
  by (auto simp: unmarshalChannelConfig_def validChannelCount_def split: sum.splits if_splits)

lemma unmarshalExtension_post:
  assumes "unmarshalExtension c buf pos = Inr (c4, p4)"
  shows "(Type c \<noteq> 5 \<and> Type c \<noteq> 29 \<and> c4 = c)
         \<or> ((Type c = 5 \<or> Type c = 29)
            \<and> c4 = c\<lparr>ExtensionType := Type c,
                      ExtensionSampleRate := ExtensionSampleRate c4, Type := 2\<rparr>
            \<and> readRate (ExtensionSampleRate c4) = ExtensionSampleRate c4)"
proof (cases "Type c = 5 \<or> Type c = 29")
  case False
  then show ?thesis
    using assms by (simp add: unmarshalExtension_def ObjectTypeSBR_def ObjectTypePS_def)
next
  case True
  let ?c = "c\<lparr>ExtensionType := Type c\<rparr>"
  let ?second = "\<lambda>(c, pos). case ReadBits buf pos 5 of
                   Inl err \<Rightarrow> Inl err
                 | Inr (tmp, pos) \<Rightarrow>
                     let c = c\<lparr>Type := int tmp\<rparr> in
                     if Type c \<noteq> ObjectTypeAACLC
                     then Inl (UnsupportedObjectType (Type c))
                     else Inr (c, pos)"
  have second: "c4 = d\<lparr>Type := 2\<rparr>" if "?second (d, q) = Inr (c4, p4)" for d q
    using that by (auto simp: Let_def ObjectTypeAACLC_def split: sum.splits if_splits)
  show ?thesis
  proof (cases "ReadBits buf pos 4")
    case (Inl e)
    then show ?thesis
      using assms True by (simp add: unmarshalExtension_def ObjectTypeSBR_def ObjectTypePS_def)
  next
    case (Inr ip)
    obtain i p where ip: "ip = (i, p)" by (cases ip)
    show ?thesis
    proof (cases "i \<le> 12")
      case i: True
      then have "?second (?c\<lparr>ExtensionSampleRate := sampleRates ! i\<rparr>, p) = Inr (c4, p4)"
        using assms Inr ip True
        by (simp add: unmarshalExtension_def bind_err_def ObjectTypeSBR_def ObjectTypePS_def
              Let_def)
      from second [OF this]
      have "c4 = c\<lparr>ExtensionType := Type c, ExtensionSampleRate := sampleRates ! i, Type := 2\<rparr>"
        by simp
      then show ?thesis using True i readRate_table by simp
    next
      case i: False
      show ?thesis
      proof (cases "ReadBits buf p 24")
        case (Inl e)
        then show ?thesis
          using assms Inr ip True i
          by (simp add: unmarshalExtension_def bind_err_def ObjectTypeSBR_def ObjectTypePS_def
                Let_def split: if_splits)
      next
        case r: (Inr tq)
        obtain tmp q where tq: "tq = (tmp, q)" by (cases tq)
        have "tmp < 2 ^ 24" using ReadBits_Inr [of buf p 24 tmp q] r tq by simp
        then have rr: "readRate (int tmp) = int tmp" by (rule readRate_nat)
        have "?second (?c\<lparr>ExtensionSampleRate := int tmp\<rparr>, q) = Inr (c4, p4)"
          using assms Inr ip True i r tq
          by (simp add: unmarshalExtension_def bind_err_def ObjectTypeSBR_def ObjectTypePS_def
                Let_def split: if_splits)
        from second [OF this]
        have "c4 = c\<lparr>ExtensionType := Type c, ExtensionSampleRate := int tmp, Type := 2\<rparr>"
          by simp
        then show ?thesis using True rr by simp
      qed
    qed
  qed
qed

lemma take_bit_14_of_nat:
  assumes "x < 2 ^ 14"
  shows "take_bit 14 (of_nat x :: 16 word) = of_nat x"
proof -
  have "take_bit 14 x = x" using assms by (simp only: take_bit_nat_eq_self)
  then show ?thesis by (metis of_nat_take_bit)
qed

lemma unmarshalFlags_post:
  assumes "unmarshalFlags c buf pos = Inr (c5, p5)"
  shows "c5 = c\<lparr>FrameLengthFlag := FrameLengthFlag c5,
                 DependsOnCoreCoder := DependsOnCoreCoder c5,
                 CoreCoderDelay := CoreCoderDelay c5\<rparr>
         \<and> (if DependsOnCoreCoder c5 then take_bit 14 (CoreCoderDelay c5) = CoreCoderDelay c5
             else CoreCoderDelay c5 = CoreCoderDelay c)"
proof (cases "ReadFlag buf pos")
  case (Inl e)
  then show ?thesis using assms by (simp add: unmarshalFlags_def)
next
  case f1: (Inr fp)
  obtain f p where fp: "fp = (f, p)" by (cases fp)
  show ?thesis
  proof (cases "ReadFlag buf p")
    case (Inl e)
    then show ?thesis using assms f1 fp by (simp add: unmarshalFlags_def)
  next
    case f2: (Inr dq)
    obtain d q where dq: "dq = (d, q)" by (cases dq)
    let ?c = "c\<lparr>FrameLengthFlag := f, DependsOnCoreCoder := d\<rparr>"
    let ?last = "\<lambda>(c, pos). case ReadFlag buf pos of
                     Inl err \<Rightarrow> Inl err
                   | Inr (extensionFlag, pos) \<Rightarrow>
                       if extensionFlag then Inl Unsupported else Inr (c, pos)"
    have last: "c5 = e" if "?last (e, s) = Inr (c5, p5)" for e s
      using that by (auto split: sum.splits if_splits)
    show ?thesis
    proof (cases d)
      case False
      then have "?last (?c, q) = Inr (c5, p5)"
        using assms f1 fp f2 dq by (simp add: unmarshalFlags_def bind_err_def Let_def)
      from last [OF this] have "c5 = ?c\<lparr>CoreCoderDelay := CoreCoderDelay c\<rparr>" by simp
      then show ?thesis using False by simp
    next
      case True
      show ?thesis
      proof (cases "ReadBits buf q 14")
        case (Inl e)
        then show ?thesis
          using assms f1 fp f2 dq True by (simp add: unmarshalFlags_def bind_err_def Let_def)
      next
        case r: (Inr ts)
        obtain tmp s where ts: "ts = (tmp, s)" by (cases ts)
        have "tmp < 2 ^ 14" using ReadBits_Inr [of buf q 14 tmp s] r ts by simp
        then have tb: "take_bit 14 (of_nat tmp :: 16 word) = of_nat tmp"
          by (rule take_bit_14_of_nat)
        have "?last (?c\<lparr>CoreCoderDelay := of_nat tmp\<rparr>, s) = Inr (c5, p5)"
          using assms f1 fp f2 dq True r ts
          by (simp add: unmarshalFlags_def bind_err_def Let_def)
        from last [OF this] have "c5 = ?c\<lparr>CoreCoderDelay := of_nat tmp\<rparr>" by simp
        then show ?thesis using True tb by simp
      qed
    qed
  qed
qed

lemma bind_err_Inr:
  "bind_err r f = Inr y \<longleftrightarrow> (\<exists>x. r = Inr x \<and> f x = Inr y)"
  by (cases r) (simp_all add: bind_err_def)

lemma UnmarshalFromPos_stages:
  assumes "UnmarshalFromPos c buf pos = Inr (v, p)"
  obtains c1 p1 c2 p2 c3 p3 c4 p4 where
    "unmarshalType c buf pos = Inr (c1, p1)"
    "unmarshalSampleRate c1 buf p1 = Inr (c2, p2)"
    "unmarshalChannelConfig c2 buf p2 = Inr (c3, p3)"
    "unmarshalExtension c3 buf p3 = Inr (c4, p4)"
    "unmarshalFlags c4 buf p4 = Inr (v, p)"
  using assms by (auto simp: UnmarshalFromPos_def bind_err_Inr)

lemma UnmarshalFromPos_range:
  assumes "UnmarshalFromPos zeroConfig buf pos = Inr (v, p)"
  shows "Type v = ObjectTypeAACLC \<and> validChannelCount (ChannelCount v) \<and> readBack v = v"
proof -
  from assms obtain c1 p1 c2 p2 c3 p3 c4 p4 where
    s1: "unmarshalType zeroConfig buf pos = Inr (c1, p1)" and
    s2: "unmarshalSampleRate c1 buf p1 = Inr (c2, p2)" and
    s3: "unmarshalChannelConfig c2 buf p2 = Inr (c3, p3)" and
    s4: "unmarshalExtension c3 buf p3 = Inr (c4, p4)" and
    s5: "unmarshalFlags c4 buf p4 = Inr (v, p)"
    by (rule UnmarshalFromPos_stages)
  note q1 = unmarshalType_post [OF s1]
  note q2 = unmarshalSampleRate_post [OF s2]
  note q3 = unmarshalChannelConfig_post [OF s3]
  note q4 = unmarshalExtension_post [OF s4]
  note q5 = unmarshalFlags_post [OF s5]
  have c3: "c3 = zeroConfig\<lparr>Type := Type c1, SampleRate := SampleRate c2,
                 ChannelCount := ChannelCount c3\<rparr>"
    using q1 q2 q3 by (metis (no_types))
  have t3: "Type c3 = Type c1" by (subst c3) simp
  have z3: "CoreCoderDelay c3 = 0" "ExtensionType c3 = 0" "ExtensionSampleRate c3 = 0"
    "SampleRate c3 = SampleRate c2"
    by (subst c3, simp add: zeroConfig_def)+
  show ?thesis
  proof (cases "Type c1 = 2")
    case True
    then have c4: "c4 = c3" using q4 t3 by simp
    have v: "v = c3\<lparr>FrameLengthFlag := FrameLengthFlag v,
                 DependsOnCoreCoder := DependsOnCoreCoder v,
                 CoreCoderDelay := CoreCoderDelay v\<rparr>"
      using q5 c4 by simp
    have d: "if DependsOnCoreCoder v then take_bit 14 (CoreCoderDelay v) = CoreCoderDelay v
             else CoreCoderDelay v = 0"
      using q5 c4 z3 by simp
    have f: "Type v = 2" "SampleRate v = SampleRate c2" "ChannelCount v = ChannelCount c3"
      "ExtensionType v = 0" "ExtensionSampleRate v = 0"
      by (subst v, simp add: True z3 t3)+
    have "readBack v = v"
      using f d q2
      by (cases v)
        (auto simp: readBack_def hasExtension_def ObjectTypeAACLC_def ObjectTypeSBR_def
          ObjectTypePS_def split: if_splits)
    then show ?thesis using f q3 by (simp add: ObjectTypeAACLC_def)
  next
    case False
    then have e: "Type c1 = 5 \<or> Type c1 = 29" using q1 by blast
    then have c4: "c4 = c3\<lparr>ExtensionType := Type c1,
                      ExtensionSampleRate := ExtensionSampleRate c4, Type := 2\<rparr>"
      and r4: "readRate (ExtensionSampleRate c4) = ExtensionSampleRate c4"
      using q4 t3 by auto
    have v: "v = c4\<lparr>FrameLengthFlag := FrameLengthFlag v,
                 DependsOnCoreCoder := DependsOnCoreCoder v,
                 CoreCoderDelay := CoreCoderDelay v\<rparr>"
      using q5 by simp
    have "CoreCoderDelay c4 = 0"
      by (subst c4) (simp add: z3)
    then have d: "if DependsOnCoreCoder v then take_bit 14 (CoreCoderDelay v) = CoreCoderDelay v
             else CoreCoderDelay v = 0"
      using q5 by simp
    have f: "Type v = 2" "SampleRate v = SampleRate c2" "ChannelCount v = ChannelCount c3"
      "ExtensionType v = Type c1" "ExtensionSampleRate v = ExtensionSampleRate c4"
      by (subst v, subst c4, simp add: z3)+
    have "readBack v = v"
      using f d q2 r4 e
      by (cases v)
        (auto simp: readBack_def hasExtension_def ObjectTypeAACLC_def ObjectTypeSBR_def
          ObjectTypePS_def split: if_splits)
    then show ?thesis using f q3 by (simp add: ObjectTypeAACLC_def)
  qed
qed

section \<open>The fields of an encoded record\<close>

lemma Marshal_Inr_layout:
  assumes "Marshal c = Inr enc"
  shows "validChannelCount (ChannelCount c) \<and> length enc = marshalSize c
         \<and> bitsOf enc = layout c @ replicate (8 * marshalSize c - marshalSizeBits c) False"
proof -
  have v: "validChannelCount (ChannelCount c)"
    using assms Marshal_invalid [of c] by auto
  from Marshal_valid [OF v] assms show ?thesis using v by auto
qed

lemma ReadBits_at:
  assumes "bitsOf enc = A @ fld @ B" "length A = pos" "length fld = n" "0 < n"
  shows "ReadBits enc pos n = Inr (bits_val fld, pos + n)"
proof -
  have "drop pos (bitsOf enc) = fld @ B"
    using assms(1,2) by simp
  from ReadBits_prefix [OF this assms(3,4)] show ?thesis .
qed

lemma ReadFlag_at:
  assumes "bitsOf enc = A @ b # B" "length A = pos"
  shows "ReadFlag enc pos = Inr (b, pos + 1)"
proof -
  have "drop pos (bitsOf enc) = b # B"
    using assms by simp
  from ReadFlag_prefix [OF this] show ?thesis .
qed

lemma bit_at_bitsOf: "i < 8 * length buf \<Longrightarrow> bit_at buf i = bitsOf buf ! i"
  by (simp add: bitsOf_def)

lemma layout_flags:
  "\<exists>A. layout c = A @ flagBits c \<and> length A + length (flagBits c) = marshalSizeBits c"
proof -
  let ?A = "typeBits c @ rateBits (SampleRate c) @ channelBits c @ extensionBits c"
  have "layout c = ?A @ flagBits c" by (simp add: layout_def)
  moreover have "length ?A + length (flagBits c) = marshalSizeBits c"
    by (simp add: length_layout [symmetric] layout_def)
  ultimately show ?thesis by blast
qed

lemma Marshal_flag_fields:
  assumes "Marshal c = Inr enc"
  shows "(DependsOnCoreCoder c \<longrightarrow>
            ReadFlag enc (marshalSizeBits c - 17) = Inr (FrameLengthFlag c, marshalSizeBits c - 16)
          \<and> ReadFlag enc (marshalSizeBits c - 16) = Inr (True, marshalSizeBits c - 15)
          \<and> ReadBits enc (marshalSizeBits c - 15) 14
              = Inr (unat (CoreCoderDelay c) mod 2 ^ 14, marshalSizeBits c - 1)
          \<and> ReadFlag enc (marshalSizeBits c - 1) = Inr (False, marshalSizeBits c))
       \<and> (\<not> DependsOnCoreCoder c \<longrightarrow>
            ReadFlag enc (marshalSizeBits c - 3) = Inr (FrameLengthFlag c, marshalSizeBits c - 2)
          \<and> ReadFlag enc (marshalSizeBits c - 2) = Inr (False, marshalSizeBits c - 1)
          \<and> ReadFlag enc (marshalSizeBits c - 1) = Inr (False, marshalSizeBits c))"
proof -
  let ?n = "marshalSizeBits c"
  let ?pad = "replicate (8 * marshalSize c - ?n) False"
  from Marshal_Inr_layout [OF assms]
  have enc: "bitsOf enc = layout c @ ?pad" by simp
  from layout_flags [of c] obtain A where
    A: "layout c = A @ flagBits c" "length A + length (flagBits c) = ?n" by blast
  show ?thesis
  proof (cases "DependsOnCoreCoder c")
    case True
    let ?d = "nbits 14 (unat (CoreCoderDelay c))"
    have fb: "flagBits c = [FrameLengthFlag c, True] @ ?d @ [False]"
      using True by (simp add: flagBits_def)
    have lenA: "length A = ?n - 17" "17 \<le> ?n"
      using A(2) fb by simp_all
    have e1: "bitsOf enc = A @ FrameLengthFlag c # (True # ?d @ [False] @ ?pad)"
      using enc A(1) fb by simp
    have e2: "bitsOf enc = (A @ [FrameLengthFlag c]) @ True # (?d @ [False] @ ?pad)"
      using e1 by simp
    have e3: "bitsOf enc = (A @ [FrameLengthFlag c, True]) @ ?d @ ([False] @ ?pad)"
      using e1 by simp
    have e4: "bitsOf enc = (A @ [FrameLengthFlag c, True] @ ?d) @ False # ?pad"
      using e1 by simp
    have r1: "ReadFlag enc (?n - 17) = Inr (FrameLengthFlag c, ?n - 17 + 1)"
      by (rule ReadFlag_at [OF e1]) (simp add: lenA)
    have r2: "ReadFlag enc (?n - 16) = Inr (True, ?n - 16 + 1)"
      by (rule ReadFlag_at [OF e2]) (use lenA in simp)
    have r3: "ReadBits enc (?n - 15) 14 = Inr (bits_val ?d, ?n - 15 + 14)"
      by (rule ReadBits_at [OF e3]) (use lenA in simp_all)
    have r4: "ReadFlag enc (?n - 1) = Inr (False, ?n - 1 + 1)"
      by (rule ReadFlag_at [OF e4]) (use lenA in simp)
    have p: "?n - 17 + 1 = ?n - 16" "?n - 16 + 1 = ?n - 15" "?n - 15 + 14 = ?n - 1"
      "?n - 1 + 1 = ?n"
      using lenA(2) by simp_all
    show ?thesis
      using True r1 [unfolded p] r2 [unfolded p] r3 [unfolded p] r4 [unfolded p]
      by (simp add: bits_val_nbits take_bit_eq_mod)
  next
    case False
    have fb: "flagBits c = [FrameLengthFlag c, False, False]"
      using False by (simp add: flagBits_def)
    have lenA: "length A = ?n - 3" "3 \<le> ?n"
      using A(2) fb by simp_all
    have e1: "bitsOf enc = A @ FrameLengthFlag c # ([False, False] @ ?pad)"
      using enc A(1) fb by simp
    have e2: "bitsOf enc = (A @ [FrameLengthFlag c]) @ False # ([False] @ ?pad)"
      using e1 by simp
    have e3: "bitsOf enc = (A @ [FrameLengthFlag c, False]) @ False # ?pad"
      using e1 by simp
    have r1: "ReadFlag enc (?n - 3) = Inr (FrameLengthFlag c, ?n - 3 + 1)"
      by (rule ReadFlag_at [OF e1]) (simp add: lenA)
    have r2: "ReadFlag enc (?n - 2) = Inr (False, ?n - 2 + 1)"
      by (rule ReadFlag_at [OF e2]) (use lenA in simp)
    have r3: "ReadFlag enc (?n - 1) = Inr (False, ?n - 1 + 1)"
      by (rule ReadFlag_at [OF e3]) (use lenA in simp)
    have p: "?n - 3 + 1 = ?n - 2" "?n - 2 + 1 = ?n - 1" "?n - 1 + 1 = ?n"
      using lenA(2) by simp_all
    show ?thesis
      using False r1 [unfolded p] r2 [unfolded p] r3 [unfolded p] by simp
  qed
qed

lemma Marshal_ignores_delay:
  assumes "\<not> DependsOnCoreCoder c"
  shows "Marshal (c\<lparr>CoreCoderDelay := d\<rparr>) = Marshal c"
proof -
  let ?c = "c\<lparr>CoreCoderDelay := d\<rparr>"
  have h: "hasExtension ?c = hasExtension c" by (simp add: hasExtension_def)
  have "marshalSizeBits ?c = marshalSizeBits c"
    by (simp add: marshalSizeBits_def h Let_def)
  then have s: "marshalSize ?c = marshalSize c" by (simp add: marshalSize_def)
  have "marshalType ?c = marshalType c" "marshalSampleRate ?c = marshalSampleRate c"
    "marshalChannelConfig ?c = marshalChannelConfig c" "marshalExtension ?c = marshalExtension c"
    "marshalFlags ?c = marshalFlags c"
    using assms
    by (simp_all add: marshalType_def marshalSampleRate_def marshalChannelConfig_def
          marshalExtension_def marshalFlags_def h fun_eq_iff split: option.split)
  then have "marshalTo ?c = marshalTo c"
    by (simp add: marshalTo_def fun_eq_iff)
  then show ?thesis by (simp add: Marshal_def s)
qed

lemma bits_val_nbits_uint64:
  "n \<le> 64 \<Longrightarrow> bits_val (nbits n (uint64 x)) = nat (x mod 2 ^ n)"
  using take_bit_uint64 [of n x] by (simp add: bits_val_nbits)

lemma length_rateBits_rateWidth [simp]: "length (rateBits r) = rateWidth r"
  by (simp add: length_rateBits rateWidth_def)

lemma read_rate_field:
  assumes "bitsOf enc = A @ rateBits r @ B" "length A = p"
  shows "case reverseSampleRates r of
           None \<Rightarrow> ReadBits enc p 4 = Inr (15, p + 4)
                   \<and> ReadBits enc (p + 4) 24 = Inr (nat (r mod 2 ^ 24), p + 28)
         | Some k \<Rightarrow> ReadBits enc p 4 = Inr (nat k, p + 4)"
proof (cases "reverseSampleRates r")
  case None
  have e1: "bitsOf enc = A @ nbits 4 15 @ (nbits 24 (uint64 r) @ B)"
    using assms(1) None by (simp add: rateBits_def)
  then have e2: "bitsOf enc = (A @ nbits 4 15) @ nbits 24 (uint64 r) @ B"
    by simp
  have "ReadBits enc p 4 = Inr (bits_val (nbits 4 15), p + 4)"
    by (rule ReadBits_at [OF e1]) (simp_all add: assms(2))
  moreover have "ReadBits enc (p + 4) 24 = Inr (bits_val (nbits 24 (uint64 r)), p + 4 + 24)"
    by (rule ReadBits_at [OF e2]) (simp_all add: assms(2))
  moreover have "bits_val (nbits 4 15) = 15"
    by (simp add: bits_val_nbits)
  ultimately show ?thesis
    using None by (simp add: bits_val_nbits_uint64 add.assoc)
next
  case (Some k)
  from reverseSampleRates_Some [OF Some] have k: "0 \<le> k" "k \<le> 12" by simp_all
  then have "k mod 2 ^ 4 = k" by simp
  then have v: "bits_val (nbits 4 (uint64 k)) = nat k"
    by (simp add: bits_val_nbits_uint64)
  have e1: "bitsOf enc = A @ nbits 4 (uint64 k) @ B"
    using assms(1) Some by (simp add: rateBits_def)
  have "ReadBits enc p 4 = Inr (bits_val (nbits 4 (uint64 k)), p + 4)"
    by (rule ReadBits_at [OF e1]) (simp_all add: assms(2))
  then show ?thesis using Some v by simp
qed

lemma Marshal_fields:
  assumes "Marshal c = Inr enc"
  shows "ReadBits enc 0 5
           = Inr (nat ((if hasExtension c then ExtensionType c else Type c) mod 32), 5)"
    and "case reverseSampleRates (SampleRate c) of
           None \<Rightarrow> ReadBits enc 5 4 = Inr (15, 9)
                   \<and> ReadBits enc 9 24 = Inr (nat (SampleRate c mod 2 ^ 24), 33)
         | Some k \<Rightarrow> ReadBits enc 5 4 = Inr (nat k, 9)"
    and "ReadBits enc (5 + rateWidth (SampleRate c)) 4
           = Inr (if ChannelCount c = 8 then 7 else nat (ChannelCount c),
                  9 + rateWidth (SampleRate c))"
    and "hasExtension c \<Longrightarrow>
         (case reverseSampleRates (ExtensionSampleRate c) of
           None \<Rightarrow>
             ReadBits enc (9 + rateWidth (SampleRate c)) 4
               = Inr (15, 13 + rateWidth (SampleRate c))
             \<and> ReadBits enc (13 + rateWidth (SampleRate c)) 24
               = Inr (nat (ExtensionSampleRate c mod 2 ^ 24), 37 + rateWidth (SampleRate c))
         | Some k \<Rightarrow>
             ReadBits enc (9 + rateWidth (SampleRate c)) 4
               = Inr (nat k, 13 + rateWidth (SampleRate c)))"
    and "hasExtension c \<Longrightarrow>
         ReadBits enc (9 + rateWidth (SampleRate c) + rateWidth (ExtensionSampleRate c)) 5
           = Inr (nat (Type c mod 32),
                  14 + rateWidth (SampleRate c) + rateWidth (ExtensionSampleRate c))"
proof -
  let ?pad = "replicate (8 * marshalSize c - marshalSizeBits c) False"
  let ?t = "if hasExtension c then ExtensionType c else Type c"
  let ?r = "rateBits (SampleRate c)"
  from Marshal_Inr_layout [OF assms]
  have enc: "bitsOf enc = layout c @ ?pad" and v: "validChannelCount (ChannelCount c)"
    by simp_all
  have e1: "bitsOf enc = [] @ nbits 5 (uint64 ?t)
              @ (?r @ channelBits c @ extensionBits c @ flagBits c @ ?pad)"
    using enc by (simp add: layout_def typeBits_def)
  have "ReadBits enc 0 5 = Inr (bits_val (nbits 5 (uint64 ?t)), 0 + 5)"
    by (rule ReadBits_at [OF e1]) simp_all
  then show "ReadBits enc 0 5 = Inr (nat (?t mod 32), 5)"
    by (simp add: bits_val_nbits_uint64)
  have e2: "bitsOf enc = typeBits c @ ?r @ (channelBits c @ extensionBits c @ flagBits c @ ?pad)"
    using enc by (simp add: layout_def)
  from read_rate_field [OF e2, of 5]
  show "case reverseSampleRates (SampleRate c) of
           None \<Rightarrow> ReadBits enc 5 4 = Inr (15, 9)
                   \<and> ReadBits enc 9 24 = Inr (nat (SampleRate c mod 2 ^ 24), 33)
         | Some k \<Rightarrow> ReadBits enc 5 4 = Inr (nat k, 9)"
    by (simp split: option.splits)
  let ?code = "if ChannelCount c = 8 then 7 else ChannelCount c"
  have e3: "bitsOf enc = (typeBits c @ ?r) @ nbits 4 (uint64 ?code)
              @ (extensionBits c @ flagBits c @ ?pad)"
    using enc by (simp add: layout_def channelBits_def)
  have "ReadBits enc (5 + rateWidth (SampleRate c)) 4
          = Inr (bits_val (nbits 4 (uint64 ?code)), 5 + rateWidth (SampleRate c) + 4)"
    by (rule ReadBits_at [OF e3]) simp_all
  moreover have "nat (?code mod 2 ^ 4) = (if ChannelCount c = 8 then 7 else nat (ChannelCount c))"
    using v unfolding validChannelCount_cases by auto
  ultimately show "ReadBits enc (5 + rateWidth (SampleRate c)) 4
           = Inr (if ChannelCount c = 8 then 7 else nat (ChannelCount c),
                  9 + rateWidth (SampleRate c))"
    by (simp add: bits_val_nbits_uint64)
  {
    assume x: "hasExtension c"
    let ?e = "rateBits (ExtensionSampleRate c)"
    have e4: "bitsOf enc = (typeBits c @ ?r @ channelBits c) @ ?e
                @ (nbits 5 (uint64 (Type c)) @ flagBits c @ ?pad)"
      using enc x by (simp add: layout_def extensionBits_def)
    from read_rate_field [OF e4, of "9 + rateWidth (SampleRate c)"]
    show "case reverseSampleRates (ExtensionSampleRate c) of
           None \<Rightarrow>
             ReadBits enc (9 + rateWidth (SampleRate c)) 4
               = Inr (15, 13 + rateWidth (SampleRate c))
             \<and> ReadBits enc (13 + rateWidth (SampleRate c)) 24
               = Inr (nat (ExtensionSampleRate c mod 2 ^ 24), 37 + rateWidth (SampleRate c))
         | Some k \<Rightarrow>
             ReadBits enc (9 + rateWidth (SampleRate c)) 4
               = Inr (nat k, 13 + rateWidth (SampleRate c))"
      by (simp split: option.splits)
    have e5: "bitsOf enc = (typeBits c @ ?r @ channelBits c @ ?e) @ nbits 5 (uint64 (Type c))
                @ (flagBits c @ ?pad)"
      using enc x by (simp add: layout_def extensionBits_def)
    have "ReadBits enc (9 + rateWidth (SampleRate c) + rateWidth (ExtensionSampleRate c)) 5
            = Inr (bits_val (nbits 5 (uint64 (Type c))),
                9 + rateWidth (SampleRate c) + rateWidth (ExtensionSampleRate c) + 5)"
      by (rule ReadBits_at [OF e5]) simp_all
    then show "ReadBits enc (9 + rateWidth (SampleRate c) + rateWidth (ExtensionSampleRate c)) 5
           = Inr (nat (Type c mod 32),
                  14 + rateWidth (SampleRate c) + rateWidth (ExtensionSampleRate c))"
      by (simp add: bits_val_nbits_uint64)
  }
qed

section \<open>Buffers as lists of bits, byte by byte\<close>

lemma bitsOf_Nil: "bitsOf [] = []"
  by (simp add: bitsOf_def)

lemma bitsOf_Cons:
  "bitsOf (b # bs)
     = [bit b 7, bit b 6, bit b 5, bit b 4, bit b 3, bit b 2, bit b 1, bit b 0] @ bitsOf bs"
proof -
  have "[0..<8 + 8 * length bs] = [0..<8] @ [8..<8 + 8 * length bs]"
    by (rule upt_add_eq_append) simp
  also have "[8..<8 + 8 * length bs] = [8..<8 * length bs + 8]"
    by (simp only: add.commute)
  also have "\<dots> = map (\<lambda>i. i + 8) [0..<8 * length bs]"
    by (simp only: map_add_upt)
  finally have split:
    "[0..<8 + 8 * length bs] = [0..<8] @ map (\<lambda>i. i + 8) [0..<8 * length bs]" .
  have first: "[0..<8] = [0, 1, 2, 3, 4, 5, 6, 7::nat]"
    by (simp add: upt_rec)
  have shift: "bit_at (b # bs) (i + 8) = bit_at bs i" for i
  proof -
    have "(i + 8) div 8 = Suc (i div 8)" "(i + 8) mod 8 = i mod 8"
      by simp_all
    then show ?thesis by (simp add: bit_at_def)
  qed
  have "bitsOf (b # bs)
          = map (bit_at (b # bs)) [0..<8] @ map (\<lambda>i. bit_at (b # bs) (i + 8)) [0..<8 * length bs]"
  proof -
    have "bitsOf (b # bs) = map (bit_at (b # bs)) [0..<8 + 8 * length bs]"
      by (simp add: bitsOf_def)
    then show ?thesis
      by (simp only: split map_append map_map comp_def)
  qed
  also have "map (\<lambda>i. bit_at (b # bs) (i + 8)) [0..<8 * length bs] = bitsOf bs"
    by (simp add: shift bitsOf_def)
  also have "map (bit_at (b # bs)) [0..<8]
                = [bit b 7, bit b 6, bit b 5, bit b 4, bit b 3, bit b 2, bit b 1, bit b 0]"
    unfolding first by (simp add: bit_at_def)
  finally show ?thesis .
qed

lemma byte_eq_bits:
  fixes x y :: byte
  assumes "[bit x 7, bit x 6, bit x 5, bit x 4, bit x 3, bit x 2, bit x 1, bit x 0]
         = [bit y 7, bit y 6, bit y 5, bit y 4, bit y 3, bit y 2, bit y 1, bit y 0]"
  shows "x = y"
proof (rule bit_word_eqI)
  fix n assume "n < LENGTH(8)"
  then have "n \<in> {0, 1, 2, 3, 4, 5, 6, 7}" by auto
  then show "bit x n \<longleftrightarrow> bit y n" using assms by auto
qed

lemma bitsOf_inj: "bitsOf a = bitsOf b \<Longrightarrow> a = b"
proof (induction a arbitrary: b)
  case Nil
  then have "length (bitsOf b) = 0" by (simp add: bitsOf_Nil)
  then show ?case by simp
next
  case (Cons x xs)
  have "length (bitsOf b) = length (bitsOf (x # xs))" using Cons.prems by simp
  then obtain y ys where b: "b = y # ys" by (cases b) simp_all
  let ?bx = "[bit x 7, bit x 6, bit x 5, bit x 4, bit x 3, bit x 2, bit x 1, bit x 0]"
  let ?by = "[bit y 7, bit y 6, bit y 5, bit y 4, bit y 3, bit y 2, bit y 1, bit y 0]"
  have "?bx @ bitsOf xs = ?by @ bitsOf ys"
    using Cons.prems unfolding b bitsOf_Cons .
  moreover have "length ?bx = length ?by" by simp
  ultimately have "?bx = ?by \<and> bitsOf xs = bitsOf ys"
    using append_eq_append_conv [of ?bx ?by "bitsOf xs" "bitsOf ys"] by blast
  then have "x = y" "xs = ys"
    using byte_eq_bits Cons.IH by blast+
  then show ?case using b by simp
qed

lemma Marshal_bytes:
  assumes "validChannelCount (ChannelCount c)"
    and "bitsOf enc = layout c @ replicate (8 * marshalSize c - marshalSizeBits c) False"
  shows "Marshal c = Inr enc"
  using Marshal_valid [OF assms(1)] assms(2) by (auto dest: bitsOf_inj [OF trans [OF _ sym]])

lemma nbits_numeral:
  "nbits (numeral k) v = bit v (pred_numeral k) # nbits (pred_numeral k) v"
  by (simp add: numeral_eq_Suc)

section \<open>The computed size\<close>

text \<open>
  Claim C6, as amended. The size pass computes the bit length of section 4.2 of the
  specification plus one: the 12 fixed bits of \<open>marshalSizeBits\<close> are the type (5),
  the channel code (4), the two flags (2) and the trailing extension flag (1), which the
  enumeration in the specification leaves out. For a record with a valid channel count
  the write pass on the buffer that \<open>Marshal\<close> allocates ends at exactly that bit
  position.
\<close>

theorem marshalSizeBits_counts_extension_flag:
  "marshalSizeBits c = specSizeBits c + 1
   \<and> (validChannelCount (ChannelCount c) \<longrightarrow>
        (\<exists>enc. marshalTo c (replicate (marshalSize c) 0) 0 = Inr (enc, marshalSizeBits c)))"
proof -
  have "marshalSizeBits c = specSizeBits c + 1"
    by (simp add: marshalSizeBits_def specSizeBits_def split: option.split)
  then show ?thesis
    using marshalTo_fresh [of c] by blast
qed

theorem marshalSizeBits_counts_extension_flag_witness:
  "validChannelCount 2
   \<and> marshalSizeBits \<lparr>Type = 2, SampleRate = 44100, ChannelCount = 2, ExtensionType = 0,
        ExtensionSampleRate = 0, FrameLengthFlag = False, DependsOnCoreCoder = False,
        CoreCoderDelay = 0\<rparr> = 16
   \<and> (\<exists>enc. marshalTo \<lparr>Type = 2, SampleRate = 44100, ChannelCount = 2, ExtensionType = 0,
        ExtensionSampleRate = 0, FrameLengthFlag = False, DependsOnCoreCoder = False,
        CoreCoderDelay = 0\<rparr> (replicate 2 0) 0 = Inr (enc, 16))"
proof -
  let ?c = "\<lparr>Type = 2, SampleRate = 44100, ChannelCount = 2, ExtensionType = 0,
        ExtensionSampleRate = 0, FrameLengthFlag = False, DependsOnCoreCoder = False,
        CoreCoderDelay = 0\<rparr>"
  have v: "validChannelCount (ChannelCount ?c)" by (simp add: validChannelCount_def)
  have s: "marshalSizeBits ?c = 16"
    by (simp add: marshalSizeBits_def reverseSampleRates_def hasExtension_def
          ObjectTypeSBR_def ObjectTypePS_def)
  then have m: "marshalSize ?c = 2" by (simp add: marshalSize_def)
  show ?thesis
    using marshalSizeBits_counts_extension_flag [of ?c] v s m by simp
qed

text \<open>
  The claim as stated fails on the plain AAC-LC record at 44100 Hz with two channels:
  the enumeration of the specification gives 15 bits, the size pass 16.
\<close>

theorem specSizeBits_counterexample:
  "marshalSizeBits \<lparr>Type = 2, SampleRate = 44100, ChannelCount = 2, ExtensionType = 0,
        ExtensionSampleRate = 0, FrameLengthFlag = False, DependsOnCoreCoder = False,
        CoreCoderDelay = 0\<rparr> = 16
   \<and> specSizeBits \<lparr>Type = 2, SampleRate = 44100, ChannelCount = 2, ExtensionType = 0,
        ExtensionSampleRate = 0, FrameLengthFlag = False, DependsOnCoreCoder = False,
        CoreCoderDelay = 0\<rparr> = 15"
  by (simp add: marshalSizeBits_def specSizeBits_def reverseSampleRates_def hasExtension_def
        ObjectTypeSBR_def ObjectTypePS_def)

section \<open>The OBU header decoder\<close>

lemma OBU_bits:
  fixes b :: byte
  shows "drop_bit 7 b \<noteq> 0 \<longleftrightarrow> bit b 7"
    and "(drop_bit 2 b AND 1) \<noteq> 0 \<longleftrightarrow> bit b 2"
    and "(drop_bit 1 b AND 1) \<noteq> 0 \<longleftrightarrow> bit b 1"
proof -
  have "drop_bit 7 b = 0 \<longleftrightarrow> \<not> bit b 7"
  proof
    assume "drop_bit 7 b = 0"
    then have "\<not> bit (drop_bit 7 b) 0" by simp
    then show "\<not> bit b 7" by (simp add: bit_drop_bit_eq)
  next
    assume nb: "\<not> bit b 7"
    show "drop_bit 7 b = 0"
    proof (rule bit_word_eqI)
      fix n assume "n < LENGTH(8)"
      show "bit (drop_bit 7 b) n \<longleftrightarrow> bit (0::byte) n"
      proof (cases n)
        case 0
        then show ?thesis using nb by (simp add: bit_drop_bit_eq)
      next
        case (Suc m)
        have "\<not> bit b (7 + n)"
          using Suc by (auto dest: bit_imp_le_length)
        then show ?thesis by (simp add: bit_drop_bit_eq)
      qed
    qed
  qed
  then show "drop_bit 7 b \<noteq> 0 \<longleftrightarrow> bit b 7" by simp
  have one: "(w AND 1) \<noteq> 0 \<longleftrightarrow> bit w 0" for w :: byte
    by (simp add: and_one_eq bit_0 mod_2_eq_odd)
  show "(drop_bit 2 b AND 1) \<noteq> 0 \<longleftrightarrow> bit b 2"
    by (simp add: one bit_drop_bit_eq)
  show "(drop_bit 1 b AND 1) \<noteq> 0 \<longleftrightarrow> bit b 1"
    by (simp add: one bit_drop_bit_eq)
qed

lemma OBU_type_bits:
  fixes b :: byte
  assumes "\<not> bit b 7"
  shows "drop_bit 3 b = take_bit 4 (drop_bit 3 b)"
proof (rule bit_word_eqI)
  fix n assume "n < LENGTH(8)"
  have "\<not> bit b (3 + n)" if "4 \<le> n"
  proof (cases "n = 4")
    case True
    then show ?thesis using assms by simp
  next
    case False
    then have "8 \<le> 3 + n" using that by simp
    then show ?thesis by (auto dest: bit_imp_le_length)
  qed
  then have "bit b (3 + n) \<Longrightarrow> n < 4"
    by (cases "n < 4") simp_all
  then show "bit (drop_bit 3 b) n \<longleftrightarrow> bit (take_bit 4 (drop_bit 3 b)) n"
    by (auto simp: bit_drop_bit_eq bit_take_bit_iff)
qed

text \<open>
  Claim C10, as amended. An empty buffer fails. On a non-empty buffer the decoder fails
  when bit 7 of the first byte (the forbidden bit) is set, fails when bit 2 (the
  extension flag) is set, and otherwise succeeds with the four bits after the forbidden
  bit (bits 6 to 3, the value of \<open>buf[0] >> 3\<close>) as the type code and bit 1 as the
  has-size indicator. The result depends on the first byte only.
\<close>

theorem OBUHeader_Unmarshal_cases:
  "OBUHeader_Unmarshal h [] = Inl NotEnoughBytes
   \<and> OBUHeader_Unmarshal h (b # rest) =
       (if bit b 7 then Inl ForbiddenBitSet
        else if bit b 2 then Inl ExtensionFlagNotSupported
        else Inr \<lparr>obuType = take_bit 4 (drop_bit 3 b), obuHasSize = bit b 1\<rparr>)
   \<and> OBUHeader_Unmarshal h (b # rest) = OBUHeader_Unmarshal h [b]"
proof -
  have upd: "h\<lparr>obuType := t, obuHasSize := s\<rparr> = \<lparr>obuType = t, obuHasSize = s\<rparr>" for t s
    by simp
  have def: "OBUHeader_Unmarshal h (b # rest) =
       (if bit b 7 then Inl ForbiddenBitSet
        else if bit b 2 then Inl ExtensionFlagNotSupported
        else Inr \<lparr>obuType = drop_bit 3 b, obuHasSize = bit b 1\<rparr>)"
    unfolding OBUHeader_Unmarshal_def Let_def upd
    by (simp only: OBU_bits list.size nth_Cons_0) simp
  have "OBUHeader_Unmarshal h (b # rest) =
       (if bit b 7 then Inl ForbiddenBitSet
        else if bit b 2 then Inl ExtensionFlagNotSupported
        else Inr \<lparr>obuType = take_bit 4 (drop_bit 3 b), obuHasSize = bit b 1\<rparr>)"
  proof (cases "bit b 7")
    case True
    then show ?thesis by (simp add: def)
  next
    case False
    from OBU_type_bits [OF this] have "drop_bit 3 b = take_bit 4 (drop_bit 3 b)" .
    then show ?thesis by (simp only: def)
  qed
  moreover have "OBUHeader_Unmarshal h (b # rest) = OBUHeader_Unmarshal h [b]"
    by (simp add: OBUHeader_Unmarshal_def)
  moreover have "OBUHeader_Unmarshal h [] = Inl NotEnoughBytes"
    by (simp add: OBUHeader_Unmarshal_def)
  ultimately show ?thesis by simp
qed

text \<open>
  The claim as stated takes the five bits after the forbidden bit as the type code. They
  include the extension flag: on the byte 0x08 the decoder stores the type 1, and the
  five bits after the forbidden bit are the number 2.
\<close>

theorem OBUHeader_type_counterexample:
  "OBUHeader_Unmarshal \<lparr>obuType = 0, obuHasSize = False\<rparr> [8]
     = Inr \<lparr>obuType = 1, obuHasSize = False\<rparr>
   \<and> fiveBitsAfterForbidden 8 = 2"
  by (simp add: OBUHeader_Unmarshal_def fiveBitsAfterForbidden_def Let_def)

section \<open>Encoding and decoding a record of the decoder's range\<close>

lemma sampleRates_length: "length sampleRates = 13"
  by (simp add: sampleRates_def)

lemma representableRate_iff: "representableRate r \<longleftrightarrow> readRate r = r"
proof (cases "reverseSampleRates r")
  case None
  have "r \<notin> set sampleRates"
  proof
    assume "r \<in> set sampleRates"
    then obtain i where "i < 13" "sampleRates ! i = r"
      by (auto simp: in_set_conv_nth sampleRates_length)
    then show False using sampleRates_reverse [of i] None by simp
  qed
  moreover have "r mod 2 ^ 24 = r \<longleftrightarrow> 0 \<le> r \<and> r < 2 ^ 24"
    by (metis mod_pos_pos_trivial pos_mod_bound pos_mod_sign zero_less_numeral zero_less_power)
  ultimately show ?thesis
    using None by (simp add: representableRate_def readRate_def)
next
  case (Some k)
  from reverseSampleRates_Some [OF Some]
  have k: "0 \<le> k" "k \<le> 12" "sampleRates ! nat k = r"
    by simp_all
  then have "nat k < length sampleRates"
    unfolding sampleRates_length by linarith
  note this k(3)
  then have "r \<in> set sampleRates" by (metis nth_mem)
  then show ?thesis
    using Some by (simp add: representableRate_def readRate_def)
qed

lemma delay_14_bits_iff:
  fixes w :: "16 word"
  shows "w \<le> 16383 \<longleftrightarrow> take_bit 14 w = w"
proof
  assume "w \<le> 16383"
  then have "w < 2 ^ 14"
    by (simp add: word_le_nat_alt word_less_nat_alt)
  then show "take_bit 14 w = w"
    by (simp add: take_bit_eq_mask less_mask_eq)
next
  assume "take_bit 14 w = w"
  then have "unat w = take_bit 14 (unat w)"
    by (metis unsigned_take_bit_eq)
  then have "unat w < 2 ^ 14"
    by (metis take_bit_nat_less_exp)
  then show "w \<le> 16383"
    by (simp add: word_le_nat_alt)
qed

lemma inDecodeDomain_iff:
  "inDecodeDomain v \<longleftrightarrow>
     Type v = ObjectTypeAACLC \<and> validChannelCount (ChannelCount v) \<and> readBack v = v"
proof -
  have "readBack v = v \<longleftrightarrow>
          Type v = ObjectTypeAACLC
          \<and> readRate (SampleRate v) = SampleRate v
          \<and> (if hasExtension v then readRate (ExtensionSampleRate v) = ExtensionSampleRate v
              else ExtensionType v = 0 \<and> ExtensionSampleRate v = 0)
          \<and> (if DependsOnCoreCoder v then take_bit 14 (CoreCoderDelay v) = CoreCoderDelay v
              else CoreCoderDelay v = 0)"
    by (cases v) (auto simp: readBack_def)
  then show ?thesis
    by (auto simp: inDecodeDomain_def representableRate_iff delay_14_bits_iff)
qed

lemma Unmarshal_inDecodeDomain:
  assumes "Unmarshal zeroConfig buf = Inr v"
  shows "inDecodeDomain v"
proof -
  from assms obtain p where "UnmarshalFromPos zeroConfig buf 0 = Inr (v, p)"
    by (auto simp: Unmarshal_def split: sum.splits)
  from UnmarshalFromPos_range [OF this] show ?thesis
    by (simp add: inDecodeDomain_iff)
qed

text \<open>
  Claim C1, as amended. For every record \<open>v\<close> of the decoder's range (\<open>inDecodeDomain\<close>:
  \<open>Type\<close> the base low-complexity profile; \<open>ChannelCount\<close> one of 1 to 6 or 8;
  \<open>SampleRate\<close> in the table or from 0 to \<open>2^24 - 1\<close>; \<open>ExtensionType\<close> SBR or PS with an
  extension rate of the same kind, or else both extension fields zero; \<open>CoreCoderDelay\<close> at
  most 16383 when \<open>DependsOnCoreCoder\<close> is set and zero when it is not), \<open>Marshal\<close> succeeds
  and \<open>Unmarshal\<close> of the produced bytes into a zero record succeeds and returns \<open>v\<close>.
\<close>

theorem Marshal_Unmarshal_roundtrip:
  assumes "inDecodeDomain v"
  shows "\<exists>enc. Marshal v = Inr enc \<and> Unmarshal zeroConfig enc = Inr v"
proof -
  from assms have v: "Type v = ObjectTypeAACLC" "validChannelCount (ChannelCount v)"
    "readBack v = v"
    by (simp_all add: inDecodeDomain_iff)
  from Unmarshal_Marshal [OF v(1,2)] v(3)
  show ?thesis by (auto simp: Unmarshal_def)
qed

text \<open>
  The round trip at a record with an explicit core rate, eight channels, a PS extension
  and the largest delay.
\<close>

theorem Marshal_Unmarshal_roundtrip_witness:
  "inDecodeDomain \<lparr>Type = 2, SampleRate = 12345, ChannelCount = 8, ExtensionType = 29,
       ExtensionSampleRate = 48000, FrameLengthFlag = True, DependsOnCoreCoder = True,
       CoreCoderDelay = 16383\<rparr>
   \<and> (\<exists>enc. Marshal \<lparr>Type = 2, SampleRate = 12345, ChannelCount = 8, ExtensionType = 29,
            ExtensionSampleRate = 48000, FrameLengthFlag = True, DependsOnCoreCoder = True,
            CoreCoderDelay = 16383\<rparr> = Inr enc
        \<and> Unmarshal zeroConfig enc
            = Inr \<lparr>Type = 2, SampleRate = 12345, ChannelCount = 8, ExtensionType = 29,
                ExtensionSampleRate = 48000, FrameLengthFlag = True,
                DependsOnCoreCoder = True, CoreCoderDelay = 16383\<rparr>)"
proof -
  let ?v = "\<lparr>Type = 2, SampleRate = 12345, ChannelCount = 8, ExtensionType = 29,
       ExtensionSampleRate = 48000, FrameLengthFlag = True, DependsOnCoreCoder = True,
       CoreCoderDelay = 16383\<rparr>"
  have d: "inDecodeDomain ?v"
    by (simp add: inDecodeDomain_def representableRate_def validChannelCount_def
          hasExtension_def sampleRates_def ObjectTypeAACLC_def ObjectTypePS_def)
  from Marshal_Unmarshal_roundtrip [OF d] d show ?thesis by (simp only: simp_thms)
qed

section \<open>Evaluating the codec on concrete buffers\<close>

lemma replicate_pred_numeral:
  "replicate (numeral k) x = x # replicate (pred_numeral k) x"
  by (simp add: numeral_eq_Suc)

lemmas decode_eval =
  Unmarshal_def UnmarshalFromPos_def unmarshalType_def unmarshalSampleRate_def
  unmarshalChannelConfig_def unmarshalExtension_def unmarshalFlags_def bind_err_def
  ReadBits_bitsOf ReadFlag_bitsOf bitsOf_Cons bitsOf_Nil bits_val_Cons zeroConfig_def
  ObjectTypeAACLC_def ObjectTypeSBR_def ObjectTypePS_def sampleRates_def Let_def

lemmas layout_eval =
  layout_def typeBits_def rateBits_def channelBits_def extensionBits_def flagBits_def
  hasExtension_def ObjectTypeSBR_def ObjectTypePS_def reverseSampleRates_def uint64_def
  nbits_numeral marshalSize_def marshalSizeBits_def bitsOf_Cons bitsOf_Nil Let_def
  validChannelCount_def bit_0 replicate_pred_numeral

text \<open>
  The domain of claim C1 as stated admits every recognised profile as \<open>Type\<close> and bounds
  \<open>CoreCoderDelay\<close> only when \<open>DependsOnCoreCoder\<close> is set. The record with the flag clear and
  the delay 5 is encoded as 0x12 0x10, which decodes to a record whose delay is 0: the
  encoder does not write the field. The record with \<open>Type\<close> and \<open>ExtensionType\<close> both SBR is
  encoded as 0x2A 0x12 0x14 0x00, which the decoder refuses at the second type field.
\<close>

theorem roundtrip_counterexample:
  "Marshal \<lparr>Type = 2, SampleRate = 44100, ChannelCount = 2, ExtensionType = 0,
      ExtensionSampleRate = 0, FrameLengthFlag = False, DependsOnCoreCoder = False,
      CoreCoderDelay = 5\<rparr> = Inr [18, 16]
   \<and> Unmarshal zeroConfig [18, 16]
       = Inr \<lparr>Type = 2, SampleRate = 44100, ChannelCount = 2, ExtensionType = 0,
           ExtensionSampleRate = 0, FrameLengthFlag = False, DependsOnCoreCoder = False,
           CoreCoderDelay = 0\<rparr>
   \<and> Marshal \<lparr>Type = 5, SampleRate = 44100, ChannelCount = 2, ExtensionType = 5,
      ExtensionSampleRate = 44100, FrameLengthFlag = False, DependsOnCoreCoder = False,
      CoreCoderDelay = 0\<rparr> = Inr [42, 18, 20, 0]
   \<and> Unmarshal zeroConfig [42, 18, 20, 0] = Inl (UnsupportedObjectType 5)"
proof -
  have "Marshal \<lparr>Type = 2, SampleRate = 44100, ChannelCount = 2, ExtensionType = 0,
      ExtensionSampleRate = 0, FrameLengthFlag = False, DependsOnCoreCoder = False,
      CoreCoderDelay = 5\<rparr> = Inr [18, 16]"
    by (rule Marshal_bytes) (simp_all add: layout_eval)
  moreover have "Unmarshal zeroConfig [18, 16]
       = Inr \<lparr>Type = 2, SampleRate = 44100, ChannelCount = 2, ExtensionType = 0,
           ExtensionSampleRate = 0, FrameLengthFlag = False, DependsOnCoreCoder = False,
           CoreCoderDelay = 0\<rparr>"
    by (simp add: decode_eval)
  moreover have "Marshal \<lparr>Type = 5, SampleRate = 44100, ChannelCount = 2, ExtensionType = 5,
      ExtensionSampleRate = 44100, FrameLengthFlag = False, DependsOnCoreCoder = False,
      CoreCoderDelay = 0\<rparr> = Inr [42, 18, 20, 0]"
    by (rule Marshal_bytes) (simp_all add: layout_eval)
  moreover have "Unmarshal zeroConfig [42, 18, 20, 0] = Inl (UnsupportedObjectType 5)"
    by (simp add: decode_eval)
  ultimately show ?thesis by (simp only: simp_thms)
qed

section \<open>The length of the encoding\<close>

text \<open>
  Claim C5, as amended. \<open>Marshal\<close> accepts a record exactly when its \<open>ChannelCount\<close> is one
  of 1 to 6 or 8. The buffer it then returns has as many bytes as the computed bit
  length rounded up to a whole byte, and every bit of the buffer from the computed bit
  length on is zero. When \<open>Type\<close> is the base low-complexity profile, decoding that buffer
  succeeds and ends at the computed bit length.
\<close>

theorem Marshal_minimal_length:
  "(ChannelCount c \<in> {1, 2, 3, 4, 5, 6, 8} \<longrightarrow>
      (\<exists>enc. Marshal c = Inr enc
         \<and> length enc = (marshalSizeBits c + 7) div 8
         \<and> (\<forall>i. marshalSizeBits c \<le> i \<and> i < 8 * length enc \<longrightarrow> \<not> bit_at enc i)
         \<and> (Type c = ObjectTypeAACLC \<longrightarrow>
              (\<exists>v. UnmarshalFromPos zeroConfig enc 0 = Inr (v, marshalSizeBits c)))))
   \<and> (ChannelCount c \<notin> {1, 2, 3, 4, 5, 6, 8} \<longrightarrow>
        Marshal c = Inl (InvalidChannelCount (ChannelCount c)))"
proof -
  let ?n = "marshalSizeBits c"
  have s: "ChannelCount c \<in> {1, 2, 3, 4, 5, 6, 8} \<longleftrightarrow> validChannelCount (ChannelCount c)"
    by (simp add: validChannelCount_cases)
  have ok: "\<exists>enc. Marshal c = Inr enc
         \<and> length enc = (?n + 7) div 8
         \<and> (\<forall>i. ?n \<le> i \<and> i < 8 * length enc \<longrightarrow> \<not> bit_at enc i)
         \<and> (Type c = ObjectTypeAACLC \<longrightarrow>
              (\<exists>v. UnmarshalFromPos zeroConfig enc 0 = Inr (v, ?n)))"
    if v: "validChannelCount (ChannelCount c)"
  proof -
    from Marshal_valid [OF v] obtain enc where m: "Marshal c = Inr enc"
      and len: "length enc = marshalSize c"
      and enc: "bitsOf enc = layout c @ replicate (8 * marshalSize c - ?n) False"
      by blast
    have 1: "length enc = (?n + 7) div 8"
      using len by (simp add: marshalSize_ceil)
    have 2: "\<not> bit_at enc i" if "?n \<le> i" "i < 8 * length enc" for i
    proof -
      have "bit_at enc i = (layout c @ replicate (8 * marshalSize c - ?n) False) ! i"
        using that(2) by (simp add: bit_at_bitsOf enc)
      also have "\<dots> = replicate (8 * marshalSize c - ?n) False ! (i - ?n)"
        using that(1) by (simp add: nth_append length_layout)
      also have "\<dots> = False"
        using that len by simp
      finally show ?thesis by simp
    qed
    have 3: "\<exists>v. UnmarshalFromPos zeroConfig enc 0 = Inr (v, ?n)" if "Type c = ObjectTypeAACLC"
      using Unmarshal_Marshal [OF that v] m by auto
    show ?thesis using m 1 2 3 by blast
  qed
  have bad: "Marshal c = Inl (InvalidChannelCount (ChannelCount c))"
    if "\<not> validChannelCount (ChannelCount c)"
    using that by (rule Marshal_invalid)
  show ?thesis unfolding s using ok bad by blast
qed

text \<open>
  A record of 54 bits: seven bytes, the last two bits zero, and the decoder ends at
  bit 54.
\<close>

theorem Marshal_minimal_length_witness:
  "(5::int) \<in> {1, 2, 3, 4, 5, 6, 8}
   \<and> Marshal \<lparr>Type = 2, SampleRate = 12345, ChannelCount = 5, ExtensionType = 0,
          ExtensionSampleRate = 0, FrameLengthFlag = False, DependsOnCoreCoder = True,
          CoreCoderDelay = 5\<rparr> = Inr [23, 128, 24, 28, 170, 0, 40]
   \<and> length [23, 128, 24, 28, 170, 0, 40 :: byte] = (54 + 7) div 8
   \<and> \<not> bit_at [23, 128, 24, 28, 170, 0, 40] 54
   \<and> \<not> bit_at [23, 128, 24, 28, 170, 0, 40] 55
   \<and> (\<exists>v. UnmarshalFromPos zeroConfig [23, 128, 24, 28, 170, 0, 40] 0 = Inr (v, 54))
   \<and> Marshal \<lparr>Type = 2, SampleRate = 12345, ChannelCount = 7, ExtensionType = 0,
          ExtensionSampleRate = 0, FrameLengthFlag = False, DependsOnCoreCoder = True,
          CoreCoderDelay = 5\<rparr> = Inl (InvalidChannelCount 7)"
proof -
  let ?c = "\<lparr>Type = 2, SampleRate = 12345, ChannelCount = 5, ExtensionType = 0,
          ExtensionSampleRate = 0, FrameLengthFlag = False, DependsOnCoreCoder = True,
          CoreCoderDelay = 5\<rparr>"
  let ?bad = "\<lparr>Type = 2, SampleRate = 12345, ChannelCount = 7, ExtensionType = 0,
          ExtensionSampleRate = 0, FrameLengthFlag = False, DependsOnCoreCoder = True,
          CoreCoderDelay = 5\<rparr>"
  let ?E = "[23, 128, 24, 28, 170, 0, 40] :: byte list"
  have n: "marshalSizeBits ?c = 54"
    by (simp add: marshalSizeBits_def reverseSampleRates_def hasExtension_def
          ObjectTypeSBR_def ObjectTypePS_def)
  have t: "Type ?c = ObjectTypeAACLC"
    by (simp add: ObjectTypeAACLC_def)
  have m: "Marshal ?c = Inr ?E"
    by (rule Marshal_bytes) (simp_all add: layout_eval)
  from Marshal_minimal_length [of ?c]
  have len: "length ?E = (54 + 7) div 8"
    and pad: "\<forall>i. 54 \<le> i \<and> i < 8 * length ?E \<longrightarrow> \<not> bit_at ?E i"
    and dec: "\<exists>v. UnmarshalFromPos zeroConfig ?E 0 = Inr (v, 54)"
    unfolding n m using t by auto
  have "\<not> bit_at ?E 54" "\<not> bit_at ?E 55"
    using pad by simp_all
  moreover have "Marshal ?bad = Inl (InvalidChannelCount 7)"
    using Marshal_minimal_length [of ?bad] by simp
  ultimately show ?thesis using m len dec by simp
qed

text \<open>
  Claim C5 as stated has the decoder consume the computed number of bits of every
  accepted record. The encoder accepts a record whose \<open>Type\<close> is SBR with no extension type:
  it is encoded in 30 bits, with a delay field; the decoder takes the leading type for an
  extension, reads the bits after the channel code as an extension rate and a second
  type, and ends at bit 25.
\<close>

theorem Marshal_consumption_counterexample:
  "Marshal \<lparr>Type = 5, SampleRate = 44100, ChannelCount = 2, ExtensionType = 0,
      ExtensionSampleRate = 0, FrameLengthFlag = False, DependsOnCoreCoder = True,
      CoreCoderDelay = 256\<rparr> = Inr [42, 18, 8, 0]
   \<and> marshalSizeBits \<lparr>Type = 5, SampleRate = 44100, ChannelCount = 2, ExtensionType = 0,
      ExtensionSampleRate = 0, FrameLengthFlag = False, DependsOnCoreCoder = True,
      CoreCoderDelay = 256\<rparr> = 30
   \<and> UnmarshalFromPos zeroConfig [42, 18, 8, 0] 0
       = Inr (\<lparr>Type = 2, SampleRate = 44100, ChannelCount = 2, ExtensionType = 5,
                ExtensionSampleRate = 44100, FrameLengthFlag = False,
                DependsOnCoreCoder = False, CoreCoderDelay = 0\<rparr>, 25)"
proof -
  let ?c = "\<lparr>Type = 5, SampleRate = 44100, ChannelCount = 2, ExtensionType = 0,
      ExtensionSampleRate = 0, FrameLengthFlag = False, DependsOnCoreCoder = True,
      CoreCoderDelay = 256\<rparr>"
  have "Marshal ?c = Inr [42, 18, 8, 0]"
    by (rule Marshal_bytes) (simp_all add: layout_eval)
  moreover have "marshalSizeBits ?c = 30"
    by (simp add: marshalSizeBits_def reverseSampleRates_def hasExtension_def
          ObjectTypeSBR_def ObjectTypePS_def)
  moreover have "UnmarshalFromPos zeroConfig [42, 18, 8, 0] 0
       = Inr (\<lparr>Type = 2, SampleRate = 44100, ChannelCount = 2, ExtensionType = 5,
                ExtensionSampleRate = 44100, FrameLengthFlag = False,
                DependsOnCoreCoder = False, CoreCoderDelay = 0\<rparr>, 25)"
    by (simp add: decode_eval)
  ultimately show ?thesis by (simp only: simp_thms)
qed

section \<open>The core-coder delay\<close>

text \<open>
  Claim C7. When \<open>DependsOnCoreCoder\<close> is false the encoding does not depend on
  \<open>CoreCoderDelay\<close>, and the encoding ends with the frame-length bit, the depends-on-core bit
  (clear) and the extension flag: no delay field. When it is true the encoding ends with
  the frame-length bit, the depends-on-core bit (set), the 14 bits of the delay and the
  extension flag, and is 14 bits longer. A delay of at most 16383 in a base-profile
  record with a valid channel count is returned by decoding the encoding.
\<close>

theorem CoreCoderDelay_gating:
  "(\<not> DependsOnCoreCoder c \<longrightarrow> Marshal (c\<lparr>CoreCoderDelay := d\<rparr>) = Marshal c)
   \<and> (validChannelCount (ChannelCount c) \<longrightarrow>
        (\<exists>enc. Marshal c = Inr enc \<and>
          (if DependsOnCoreCoder c
           then ReadFlag enc (marshalSizeBits c - 17)
                  = Inr (FrameLengthFlag c, marshalSizeBits c - 16)
              \<and> ReadFlag enc (marshalSizeBits c - 16) = Inr (True, marshalSizeBits c - 15)
              \<and> ReadBits enc (marshalSizeBits c - 15) 14
                  = Inr (unat (CoreCoderDelay c) mod 2 ^ 14, marshalSizeBits c - 1)
              \<and> ReadFlag enc (marshalSizeBits c - 1) = Inr (False, marshalSizeBits c)
           else ReadFlag enc (marshalSizeBits c - 3)
                  = Inr (FrameLengthFlag c, marshalSizeBits c - 2)
              \<and> ReadFlag enc (marshalSizeBits c - 2) = Inr (False, marshalSizeBits c - 1)
              \<and> ReadFlag enc (marshalSizeBits c - 1) = Inr (False, marshalSizeBits c))))
   \<and> marshalSizeBits c
       = marshalSizeBits (c\<lparr>DependsOnCoreCoder := False\<rparr>)
         + (if DependsOnCoreCoder c then 14 else 0)
   \<and> (DependsOnCoreCoder c \<and> CoreCoderDelay c \<le> 16383 \<and> Type c = ObjectTypeAACLC
        \<and> validChannelCount (ChannelCount c) \<longrightarrow>
        (\<exists>enc v. Marshal c = Inr enc \<and> Unmarshal zeroConfig enc = Inr v
           \<and> DependsOnCoreCoder v \<and> CoreCoderDelay v = CoreCoderDelay c))"
proof -
  have 2: "\<exists>enc. Marshal c = Inr enc \<and>
          (if DependsOnCoreCoder c
           then ReadFlag enc (marshalSizeBits c - 17)
                  = Inr (FrameLengthFlag c, marshalSizeBits c - 16)
              \<and> ReadFlag enc (marshalSizeBits c - 16) = Inr (True, marshalSizeBits c - 15)
              \<and> ReadBits enc (marshalSizeBits c - 15) 14
                  = Inr (unat (CoreCoderDelay c) mod 2 ^ 14, marshalSizeBits c - 1)
              \<and> ReadFlag enc (marshalSizeBits c - 1) = Inr (False, marshalSizeBits c)
           else ReadFlag enc (marshalSizeBits c - 3)
                  = Inr (FrameLengthFlag c, marshalSizeBits c - 2)
              \<and> ReadFlag enc (marshalSizeBits c - 2) = Inr (False, marshalSizeBits c - 1)
              \<and> ReadFlag enc (marshalSizeBits c - 1) = Inr (False, marshalSizeBits c))"
    if v: "validChannelCount (ChannelCount c)"
  proof -
    from Marshal_valid [OF v] obtain enc where m: "Marshal c = Inr enc" by blast
    from Marshal_flag_fields [OF m] m show ?thesis by auto
  qed
  have 3: "marshalSizeBits c
       = marshalSizeBits (c\<lparr>DependsOnCoreCoder := False\<rparr>)
         + (if DependsOnCoreCoder c then 14 else 0)"
    by (simp add: marshalSizeBits_def hasExtension_def Let_def)
  have 4: "\<exists>enc v. Marshal c = Inr enc \<and> Unmarshal zeroConfig enc = Inr v
           \<and> DependsOnCoreCoder v \<and> CoreCoderDelay v = CoreCoderDelay c"
    if d: "DependsOnCoreCoder c" and le: "CoreCoderDelay c \<le> 16383"
      and t: "Type c = ObjectTypeAACLC" and v: "validChannelCount (ChannelCount c)"
  proof -
    have tb: "take_bit 14 (CoreCoderDelay c) = CoreCoderDelay c"
      using le by (simp add: delay_14_bits_iff)
    from Unmarshal_Marshal [OF t v] obtain enc where
      "Marshal c = Inr enc" "Unmarshal zeroConfig enc = Inr (readBack c)"
      by (auto simp: Unmarshal_def)
    moreover have "DependsOnCoreCoder (readBack c)" "CoreCoderDelay (readBack c) = CoreCoderDelay c"
      using d tb by (simp_all add: readBack_def)
    ultimately show ?thesis by blast
  qed
  show ?thesis
    using Marshal_ignores_delay [of c d] 2 3 4 by blast
qed

text \<open>
  The two encodings of a stereo 44100 Hz record: two bytes without the delay field,
  whatever the delay, and four bytes with the delay 16383.
\<close>

theorem CoreCoderDelay_gating_witness:
  "Marshal (\<lparr>Type = 2, SampleRate = 44100, ChannelCount = 2, ExtensionType = 0,
      ExtensionSampleRate = 0, FrameLengthFlag = False, DependsOnCoreCoder = False,
      CoreCoderDelay = 777\<rparr>\<lparr>CoreCoderDelay := 0\<rparr>)
     = Marshal \<lparr>Type = 2, SampleRate = 44100, ChannelCount = 2, ExtensionType = 0,
      ExtensionSampleRate = 0, FrameLengthFlag = False, DependsOnCoreCoder = False,
      CoreCoderDelay = 777\<rparr>
   \<and> Marshal \<lparr>Type = 2, SampleRate = 44100, ChannelCount = 2, ExtensionType = 0,
      ExtensionSampleRate = 0, FrameLengthFlag = False, DependsOnCoreCoder = False,
      CoreCoderDelay = 777\<rparr> = Inr [18, 16]
   \<and> ReadFlag [18, 16] 13 = Inr (False, 14)
   \<and> ReadFlag [18, 16] 14 = Inr (False, 15)
   \<and> ReadFlag [18, 16] 15 = Inr (False, 16)
   \<and> Marshal \<lparr>Type = 2, SampleRate = 44100, ChannelCount = 2, ExtensionType = 0,
      ExtensionSampleRate = 0, FrameLengthFlag = True, DependsOnCoreCoder = True,
      CoreCoderDelay = 16383\<rparr> = Inr [18, 23, 255, 248]
   \<and> ReadFlag [18, 23, 255, 248] 13 = Inr (True, 14)
   \<and> ReadFlag [18, 23, 255, 248] 14 = Inr (True, 15)
   \<and> ReadBits [18, 23, 255, 248] 15 14 = Inr (16383, 29)
   \<and> ReadFlag [18, 23, 255, 248] 29 = Inr (False, 30)
   \<and> (\<exists>v. Unmarshal zeroConfig [18, 23, 255, 248] = Inr v \<and> DependsOnCoreCoder v
        \<and> CoreCoderDelay v = 16383)"
proof -
  let ?a = "\<lparr>Type = 2, SampleRate = 44100, ChannelCount = 2, ExtensionType = 0,
      ExtensionSampleRate = 0, FrameLengthFlag = False, DependsOnCoreCoder = False,
      CoreCoderDelay = 777\<rparr>"
  let ?b = "\<lparr>Type = 2, SampleRate = 44100, ChannelCount = 2, ExtensionType = 0,
      ExtensionSampleRate = 0, FrameLengthFlag = True, DependsOnCoreCoder = True,
      CoreCoderDelay = 16383\<rparr>"
  have size: "marshalSizeBits ?a = 16" "marshalSizeBits ?b = 30"
    by (simp_all add: marshalSizeBits_def reverseSampleRates_def hasExtension_def
          ObjectTypeSBR_def ObjectTypePS_def)
  have ma: "Marshal ?a = Inr [18, 16]"
    by (rule Marshal_bytes) (simp_all add: layout_eval)
  have mb: "Marshal ?b = Inr [18, 23, 255, 248]"
    by (rule Marshal_bytes) (simp_all add: layout_eval)
  have va: "validChannelCount (ChannelCount ?a)" and vb: "validChannelCount (ChannelCount ?b)"
    by (simp_all add: validChannelCount_def)
  have hb: "DependsOnCoreCoder ?b \<and> CoreCoderDelay ?b \<le> 16383 \<and> Type ?b = ObjectTypeAACLC
         \<and> validChannelCount (ChannelCount ?b)"
    by (simp add: ObjectTypeAACLC_def validChannelCount_def)
  note ga = CoreCoderDelay_gating [of ?a 0]
  note gb = CoreCoderDelay_gating [of ?b 0]
  have 1: "Marshal (?a\<lparr>CoreCoderDelay := 0\<rparr>) = Marshal ?a"
    using ga by simp
  have 2: "ReadFlag [18, 16] 13 = Inr (False, 14) \<and> ReadFlag [18, 16] 14 = Inr (False, 15)
           \<and> ReadFlag [18, 16] 15 = Inr (False, 16)"
    using ga va unfolding ma size by simp
  have 3: "ReadFlag [18, 23, 255, 248] 13 = Inr (True, 14)
           \<and> ReadFlag [18, 23, 255, 248] 14 = Inr (True, 15)
           \<and> ReadBits [18, 23, 255, 248] 15 14 = Inr (16383, 29)
           \<and> ReadFlag [18, 23, 255, 248] 29 = Inr (False, 30)"
    using gb vb unfolding mb size by simp
  have 4: "\<exists>v. Unmarshal zeroConfig [18, 23, 255, 248] = Inr v
             \<and> DependsOnCoreCoder v \<and> CoreCoderDelay v = 16383"
  proof -
    from gb have "DependsOnCoreCoder ?b \<and> CoreCoderDelay ?b \<le> 16383
        \<and> Type ?b = ObjectTypeAACLC \<and> validChannelCount (ChannelCount ?b) \<longrightarrow>
        (\<exists>enc v. Marshal ?b = Inr enc \<and> Unmarshal zeroConfig enc = Inr v
           \<and> DependsOnCoreCoder v \<and> CoreCoderDelay v = CoreCoderDelay ?b)"
      by blast
    with hb obtain enc v where "Marshal ?b = Inr enc" "Unmarshal zeroConfig enc = Inr v"
      "DependsOnCoreCoder v" "CoreCoderDelay v = CoreCoderDelay ?b"
      by blast
    then show ?thesis unfolding mb by auto
  qed
  show ?thesis using 1 2 3 4 ma mb by (simp only: simp_thms)
qed

section \<open>What the encoder validates\<close>

text \<open>
  Claim C9. \<open>Marshal\<close> returns an error exactly when \<open>ChannelCount\<close> is not one of 1 to 6 or
  8, and the error is the invalid channel count. For every other record it returns a
  buffer, whatever the rates and the delay: a rate absent from the reverse table is
  written behind the escape index as its value modulo \<open>2^24\<close>, the core rate at bit 9 and
  the extension rate behind the channel code, and the delay is written as its value modulo
  \<open>2^14\<close>.
\<close>

theorem Marshal_checks_channel_count_only:
  "((\<exists>e. Marshal c = Inl e) \<longleftrightarrow> ChannelCount c \<notin> {1, 2, 3, 4, 5, 6, 8})
   \<and> (ChannelCount c \<notin> {1, 2, 3, 4, 5, 6, 8} \<longrightarrow>
        Marshal c = Inl (InvalidChannelCount (ChannelCount c)))
   \<and> (ChannelCount c \<in> {1, 2, 3, 4, 5, 6, 8} \<longrightarrow>
        (\<exists>enc. Marshal c = Inr enc
          \<and> (reverseSampleRates (SampleRate c) = None \<longrightarrow>
                ReadBits enc 5 4 = Inr (15, 9)
              \<and> ReadBits enc 9 24 = Inr (nat (SampleRate c mod 2 ^ 24), 33))
          \<and> (hasExtension c \<and> reverseSampleRates (ExtensionSampleRate c) = None \<longrightarrow>
                ReadBits enc (9 + rateWidth (SampleRate c)) 4
                  = Inr (15, 13 + rateWidth (SampleRate c))
              \<and> ReadBits enc (13 + rateWidth (SampleRate c)) 24
                  = Inr (nat (ExtensionSampleRate c mod 2 ^ 24),
                         37 + rateWidth (SampleRate c)))
          \<and> (DependsOnCoreCoder c \<longrightarrow>
                ReadBits enc (marshalSizeBits c - 15) 14
                  = Inr (unat (CoreCoderDelay c) mod 2 ^ 14, marshalSizeBits c - 1))))"
proof -
  have s: "ChannelCount c \<notin> {1, 2, 3, 4, 5, 6, 8} \<longleftrightarrow> \<not> validChannelCount (ChannelCount c)"
    by (simp add: validChannelCount_cases)
  have 1: "(\<exists>e. Marshal c = Inl e) \<longleftrightarrow> ChannelCount c \<notin> {1, 2, 3, 4, 5, 6, 8}"
    unfolding s by (rule Marshal_error_iff)
  have 2: "Marshal c = Inl (InvalidChannelCount (ChannelCount c))"
    if "ChannelCount c \<notin> {1, 2, 3, 4, 5, 6, 8}"
    using that Marshal_invalid [of c] unfolding s by simp
  have 3: "\<exists>enc. Marshal c = Inr enc
          \<and> (reverseSampleRates (SampleRate c) = None \<longrightarrow>
                ReadBits enc 5 4 = Inr (15, 9)
              \<and> ReadBits enc 9 24 = Inr (nat (SampleRate c mod 2 ^ 24), 33))
          \<and> (hasExtension c \<and> reverseSampleRates (ExtensionSampleRate c) = None \<longrightarrow>
                ReadBits enc (9 + rateWidth (SampleRate c)) 4
                  = Inr (15, 13 + rateWidth (SampleRate c))
              \<and> ReadBits enc (13 + rateWidth (SampleRate c)) 24
                  = Inr (nat (ExtensionSampleRate c mod 2 ^ 24),
                         37 + rateWidth (SampleRate c)))
          \<and> (DependsOnCoreCoder c \<longrightarrow>
                ReadBits enc (marshalSizeBits c - 15) 14
                  = Inr (unat (CoreCoderDelay c) mod 2 ^ 14, marshalSizeBits c - 1))"
    if "ChannelCount c \<in> {1, 2, 3, 4, 5, 6, 8}"
  proof -
    from that have "validChannelCount (ChannelCount c)" using s by blast
    from Marshal_valid [OF this] obtain enc where m: "Marshal c = Inr enc" by blast
    have a: "ReadBits enc 5 4 = Inr (15, 9)
           \<and> ReadBits enc 9 24 = Inr (nat (SampleRate c mod 2 ^ 24), 33)"
      if "reverseSampleRates (SampleRate c) = None"
      using Marshal_fields(2) [OF m] that by simp
    have b: "ReadBits enc (9 + rateWidth (SampleRate c)) 4
               = Inr (15, 13 + rateWidth (SampleRate c))
           \<and> ReadBits enc (13 + rateWidth (SampleRate c)) 24
               = Inr (nat (ExtensionSampleRate c mod 2 ^ 24), 37 + rateWidth (SampleRate c))"
      if "hasExtension c" "reverseSampleRates (ExtensionSampleRate c) = None"
      using Marshal_fields(4) [OF m that(1)] that(2) by simp
    have d: "ReadBits enc (marshalSizeBits c - 15) 14
               = Inr (unat (CoreCoderDelay c) mod 2 ^ 14, marshalSizeBits c - 1)"
      if "DependsOnCoreCoder c"
      using Marshal_flag_fields [OF m] that by simp
    show ?thesis
    proof (intro exI [of _ enc] conjI)
      show "Marshal c = Inr enc" by (rule m)
    qed (use a b d in blast)+
  qed
  show ?thesis using 1 2 3 by blast
qed

text \<open>
  A record with the core rate \<open>2^24 + 5\<close>, the extension rate -1 and the delay
  \<open>2^14 + 5\<close> is encoded with the fields 5, \<open>2^24 - 1\<close> and 5; a record with the channel
  count 7 is refused.
\<close>

theorem Marshal_checks_channel_count_only_witness:
  "Marshal \<lparr>Type = 2, SampleRate = 16777221, ChannelCount = 3, ExtensionType = 5,
        ExtensionSampleRate = - 1, FrameLengthFlag = False, DependsOnCoreCoder = True,
        CoreCoderDelay = 16389\<rparr>
     = Inr [47, 128, 0, 2, 159, 255, 255, 255, 137, 0, 20]
   \<and> ReadBits [47, 128, 0, 2, 159, 255, 255, 255, 137, 0, 20] 9 24 = Inr (5, 33)
   \<and> ReadBits [47, 128, 0, 2, 159, 255, 255, 255, 137, 0, 20] 41 24 = Inr (16777215, 65)
   \<and> ReadBits [47, 128, 0, 2, 159, 255, 255, 255, 137, 0, 20] 72 14 = Inr (5, 86)
   \<and> Marshal \<lparr>Type = 2, SampleRate = 44100, ChannelCount = 7, ExtensionType = 0,
        ExtensionSampleRate = 0, FrameLengthFlag = False, DependsOnCoreCoder = False,
        CoreCoderDelay = 0\<rparr> = Inl (InvalidChannelCount 7)"
proof -
  let ?c = "\<lparr>Type = 2, SampleRate = 16777221, ChannelCount = 3, ExtensionType = 5,
        ExtensionSampleRate = - 1, FrameLengthFlag = False, DependsOnCoreCoder = True,
        CoreCoderDelay = 16389\<rparr>"
  let ?bad = "\<lparr>Type = 2, SampleRate = 44100, ChannelCount = 7, ExtensionType = 0,
        ExtensionSampleRate = 0, FrameLengthFlag = False, DependsOnCoreCoder = False,
        CoreCoderDelay = 0\<rparr>"
  let ?E = "[47, 128, 0, 2, 159, 255, 255, 255, 137, 0, 20] :: byte list"
  have r: "reverseSampleRates (SampleRate ?c) = None"
    "reverseSampleRates (ExtensionSampleRate ?c) = None"
    by (simp_all add: reverseSampleRates_def)
  have x: "hasExtension ?c"
    by (simp add: hasExtension_def ObjectTypeSBR_def)
  have w: "rateWidth (SampleRate ?c) = 28"
    using r by (simp add: rateWidth_def)
  have n: "marshalSizeBits ?c = 87"
    using x by (simp add: marshalSizeBits_def reverseSampleRates_def)
  have d: "DependsOnCoreCoder ?c" by simp
  have m: "Marshal ?c = Inr ?E"
    by (rule Marshal_bytes) (simp_all add: layout_eval)
  from Marshal_checks_channel_count_only [of ?c]
  have "\<exists>enc. Marshal ?c = Inr enc
          \<and> (reverseSampleRates (SampleRate ?c) = None \<longrightarrow>
                ReadBits enc 5 4 = Inr (15, 9)
              \<and> ReadBits enc 9 24 = Inr (nat (SampleRate ?c mod 2 ^ 24), 33))
          \<and> (hasExtension ?c \<and> reverseSampleRates (ExtensionSampleRate ?c) = None \<longrightarrow>
                ReadBits enc (9 + rateWidth (SampleRate ?c)) 4
                  = Inr (15, 13 + rateWidth (SampleRate ?c))
              \<and> ReadBits enc (13 + rateWidth (SampleRate ?c)) 24
                  = Inr (nat (ExtensionSampleRate ?c mod 2 ^ 24),
                         37 + rateWidth (SampleRate ?c)))
          \<and> (DependsOnCoreCoder ?c \<longrightarrow>
                ReadBits enc (marshalSizeBits ?c - 15) 14
                  = Inr (unat (CoreCoderDelay ?c) mod 2 ^ 14, marshalSizeBits ?c - 1))"
    by simp
  then have f: "ReadBits ?E 9 24 = Inr (nat (SampleRate ?c mod 2 ^ 24), 33)"
    "ReadBits ?E (13 + rateWidth (SampleRate ?c)) 24
       = Inr (nat (ExtensionSampleRate ?c mod 2 ^ 24), 37 + rateWidth (SampleRate ?c))"
    "ReadBits ?E (marshalSizeBits ?c - 15) 14
       = Inr (unat (CoreCoderDelay ?c) mod 2 ^ 14, marshalSizeBits ?c - 1)"
    unfolding m using r x d by blast+
  have "ReadBits ?E 9 24 = Inr (5, 33)"
    using f(1) by simp
  moreover have "ReadBits ?E 41 24 = Inr (16777215, 65)"
    using f(2) unfolding w by simp
  moreover have "ReadBits ?E 72 14 = Inr (5, 86)"
    using f(3) unfolding n by simp
  moreover have "Marshal ?bad = Inl (InvalidChannelCount 7)"
    using Marshal_checks_channel_count_only [of ?bad] by simp
  ultimately show ?thesis using m by (simp only: simp_thms)
qed

section \<open>The sample-rate index\<close>

lemma unmarshalType_read:
  assumes "ReadBits buf pos 5 = Inr (t, p)"
  shows "unmarshalType c buf pos =
           (if int t = ObjectTypeAACLC \<or> int t = ObjectTypeSBR \<or> int t = ObjectTypePS
            then Inr (c\<lparr>Type := int t\<rparr>, p)
            else Inl (UnsupportedObjectType (int t)))"
  using assms by (simp add: unmarshalType_def Let_def)

lemma unmarshalSampleRate_read:
  assumes "ReadBits buf pos 4 = Inr (i, p)"
  shows "unmarshalSampleRate c buf pos =
           (if i \<le> 12 then Inr (c\<lparr>SampleRate := sampleRates ! i\<rparr>, p)
            else if i = 15
            then (case ReadBits buf p 24 of
                    Inl e \<Rightarrow> Inl e
                  | Inr (r, q) \<Rightarrow> Inr (c\<lparr>SampleRate := int r\<rparr>, q))
            else Inl (InvalidSampleRateIndex i))"
  using assms by (simp add: unmarshalSampleRate_def)

lemma unmarshalChannelConfig_read:
  assumes "ReadBits buf pos 4 = Inr (ch, p)"
  shows "unmarshalChannelConfig c buf pos =
           (if ch = 0 then Inl NotYetSupported
            else if ch \<le> 6 then Inr (c\<lparr>ChannelCount := int ch\<rparr>, p)
            else if ch = 7 then Inr (c\<lparr>ChannelCount := 8\<rparr>, p)
            else Inl (InvalidChannelConfiguration ch))"
  using assms by (auto simp: unmarshalChannelConfig_def)

lemma Unmarshal_Inr_D:
  "Unmarshal c buf = Inr v \<Longrightarrow> \<exists>p. UnmarshalFromPos c buf 0 = Inr (v, p)"
  by (auto simp: Unmarshal_def split: sum.splits)

lemma Unmarshal_Inl_I:
  "UnmarshalFromPos c buf 0 = Inl e \<Longrightarrow> Unmarshal c buf = Inl e"
  by (simp add: Unmarshal_def)

lemma after_channel_preserves:
  assumes "unmarshalExtension c3 buf p3 = Inr (c4, p4)"
    and "unmarshalFlags c4 buf p4 = Inr (v, p)"
  shows "SampleRate v = SampleRate c3 \<and> ChannelCount v = ChannelCount c3"
proof -
  note q4 = unmarshalExtension_post [OF assms(1)]
  note q5 = unmarshalFlags_post [OF assms(2)]
  have "SampleRate c4 = SampleRate c3 \<and> ChannelCount c4 = ChannelCount c3"
  proof (cases "Type c3 = 5 \<or> Type c3 = 29")
    case True
    with q4 have "c4 = c3\<lparr>ExtensionType := Type c3,
        ExtensionSampleRate := ExtensionSampleRate c4, Type := 2\<rparr>" by auto
    then show ?thesis
      by (metis (no_types) AudioSpecificConfig.select_convs(2,3)
          AudioSpecificConfig.surjective AudioSpecificConfig.update_convs(1,4,5))
  next
    case False
    with q4 show ?thesis by auto
  qed
  moreover have "SampleRate v = SampleRate c4 \<and> ChannelCount v = ChannelCount c4"
  proof -
    from q5 have "v = c4\<lparr>FrameLengthFlag := FrameLengthFlag v,
        DependsOnCoreCoder := DependsOnCoreCoder v, CoreCoderDelay := CoreCoderDelay v\<rparr>"
      by simp
    then show ?thesis
      by (metis (no_types) AudioSpecificConfig.select_convs(2,3)
          AudioSpecificConfig.surjective AudioSpecificConfig.update_convs(6,7,8))
  qed
  ultimately show ?thesis by simp
qed

lemma after_rate_preserves:
  assumes "unmarshalChannelConfig c2 buf p2 = Inr (c3, p3)"
    and "unmarshalExtension c3 buf p3 = Inr (c4, p4)"
    and "unmarshalFlags c4 buf p4 = Inr (v, p)"
  shows "SampleRate v = SampleRate c2"
proof -
  from unmarshalChannelConfig_post [OF assms(1)]
  have "c3 = c2\<lparr>ChannelCount := ChannelCount c3\<rparr>" by simp
  then have "SampleRate c3 = SampleRate c2"
    by (metis (no_types) AudioSpecificConfig.select_convs(2)
        AudioSpecificConfig.surjective AudioSpecificConfig.update_convs(3))
  then show ?thesis using after_channel_preserves [OF assms(2,3)] by simp
qed

lemma Unmarshal_after_rate:
  assumes t: "ReadBits buf 0 5 = Inr (t, 5)"
    "int t = ObjectTypeAACLC \<or> int t = ObjectTypeSBR \<or> int t = ObjectTypePS"
    and r: "unmarshalSampleRate (c0\<lparr>Type := int t\<rparr>) buf 5 = Inr (c2, p2)"
    and u: "Unmarshal c0 buf = Inr v"
  shows "SampleRate v = SampleRate c2"
proof -
  from Unmarshal_Inr_D [OF u] obtain p where "UnmarshalFromPos c0 buf 0 = Inr (v, p)" ..
  then obtain c1 p1 d2 q2 c3 p3 c4 p4 where
    s1: "unmarshalType c0 buf 0 = Inr (c1, p1)" and
    s2: "unmarshalSampleRate c1 buf p1 = Inr (d2, q2)" and
    s3: "unmarshalChannelConfig d2 buf q2 = Inr (c3, p3)" and
    s4: "unmarshalExtension c3 buf p3 = Inr (c4, p4)" and
    s5: "unmarshalFlags c4 buf p4 = Inr (v, p)"
    by (rule UnmarshalFromPos_stages)
  have "c1 = c0\<lparr>Type := int t\<rparr>" "p1 = 5"
    using s1 t by (simp_all add: unmarshalType_read)
  then have "d2 = c2" using s2 r by simp
  then show ?thesis using after_rate_preserves [OF s3 s4 s5] by simp
qed

lemma Unmarshal_rate_error:
  assumes t: "ReadBits buf 0 5 = Inr (t, 5)"
    "int t = ObjectTypeAACLC \<or> int t = ObjectTypeSBR \<or> int t = ObjectTypePS"
    and r: "unmarshalSampleRate (c0\<lparr>Type := int t\<rparr>) buf 5 = Inl e"
  shows "Unmarshal c0 buf = Inl e"
proof -
  have "unmarshalType c0 buf 0 = Inr (c0\<lparr>Type := int t\<rparr>, 5)"
    using t by (simp add: unmarshalType_read)
  then have "UnmarshalFromPos c0 buf 0 = Inl e"
    using r by (simp add: UnmarshalFromPos_def bind_err_def)
  then show ?thesis by (rule Unmarshal_Inl_I)
qed

text \<open>
  Claim C3. The sample-rate block reads a 4-bit index: an index of at most 12 gives the
  table entry, the index 15 makes the block read 24 bits and take them as the rate, and
  the indices 13 and 14 fail with the invalid-index error; the same holds of \<open>Unmarshal\<close> on
  a buffer whose first five bits are a recognised type. The encoder writes the table
  index of a rate that the reverse table holds, and the channel code right after it;
  for any other rate it writes the index 15, then the rate in 24 bits, then the channel
  code. An explicit rate from 0 to \<open>2^24 - 1\<close> is returned by decoding the encoding.
\<close>

theorem sample_rate_index_and_escape:
  "(ReadBits buf pos 4 = Inr (i, p) \<longrightarrow>
      (i \<le> 12 \<or> i = 13 \<or> i = 14 \<or> i = 15)
      \<and> unmarshalSampleRate c buf pos =
           (if i \<le> 12 then Inr (c\<lparr>SampleRate := sampleRates ! i\<rparr>, p)
            else if i = 15
            then (case ReadBits buf p 24 of
                    Inl e \<Rightarrow> Inl e
                  | Inr (r, q) \<Rightarrow> Inr (c\<lparr>SampleRate := int r\<rparr>, q))
            else Inl (InvalidSampleRateIndex i)))
   \<and> (ReadBits buf 0 5 = Inr (t, 5)
        \<and> (int t = ObjectTypeAACLC \<or> int t = ObjectTypeSBR \<or> int t = ObjectTypePS)
        \<and> ReadBits buf 5 4 = Inr (i, 9) \<longrightarrow>
        (i = 13 \<or> i = 14 \<longrightarrow> Unmarshal c0 buf = Inl (InvalidSampleRateIndex i))
        \<and> (i \<le> 12 \<and> Unmarshal c0 buf = Inr v \<longrightarrow> SampleRate v = sampleRates ! i)
        \<and> (i = 15 \<and> ReadBits buf 9 24 = Inl e \<longrightarrow> Unmarshal c0 buf = Inl e)
        \<and> (i = 15 \<and> ReadBits buf 9 24 = Inr (r, q) \<and> Unmarshal c0 buf = Inr v \<longrightarrow>
             SampleRate v = int r))
   \<and> (ChannelCount c \<in> {1, 2, 3, 4, 5, 6, 8} \<longrightarrow>
        (\<exists>enc. Marshal c = Inr enc
          \<and> (case reverseSampleRates (SampleRate c) of
                Some k \<Rightarrow>
                  ReadBits enc 5 4 = Inr (nat k, 9) \<and> nat k \<le> 12
                  \<and> sampleRates ! nat k = SampleRate c
                  \<and> ReadBits enc 9 4
                      = Inr (if ChannelCount c = 8 then 7 else nat (ChannelCount c), 13)
              | None \<Rightarrow>
                  ReadBits enc 5 4 = Inr (15, 9)
                  \<and> ReadBits enc 9 24 = Inr (nat (SampleRate c mod 2 ^ 24), 33)
                  \<and> ReadBits enc 33 4
                      = Inr (if ChannelCount c = 8 then 7 else nat (ChannelCount c), 37))))
   \<and> (ChannelCount c \<in> {1, 2, 3, 4, 5, 6, 8} \<and> Type c = ObjectTypeAACLC
        \<and> reverseSampleRates (SampleRate c) = None
        \<and> 0 \<le> SampleRate c \<and> SampleRate c < 2 ^ 24 \<longrightarrow>
        (\<exists>enc w. Marshal c = Inr enc \<and> ReadBits enc 5 4 = Inr (15, 9)
           \<and> ReadBits enc 9 24 = Inr (nat (SampleRate c), 33)
           \<and> Unmarshal zeroConfig enc = Inr w \<and> SampleRate w = SampleRate c))"
proof -
  have 1: "(i \<le> 12 \<or> i = 13 \<or> i = 14 \<or> i = 15)
      \<and> unmarshalSampleRate c buf pos =
           (if i \<le> 12 then Inr (c\<lparr>SampleRate := sampleRates ! i\<rparr>, p)
            else if i = 15
            then (case ReadBits buf p 24 of
                    Inl e \<Rightarrow> Inl e
                  | Inr (r, q) \<Rightarrow> Inr (c\<lparr>SampleRate := int r\<rparr>, q))
            else Inl (InvalidSampleRateIndex i))"
    if rd: "ReadBits buf pos 4 = Inr (i, p)"
  proof -
    from ReadBits_Inr [OF rd] have "i < 16" by simp
    then have "i \<le> 12 \<or> i = 13 \<or> i = 14 \<or> i = 15" by linarith
    then show ?thesis using unmarshalSampleRate_read [OF rd] by simp
  qed
  have 2: "(i = 13 \<or> i = 14 \<longrightarrow> Unmarshal c0 buf = Inl (InvalidSampleRateIndex i))
        \<and> (i \<le> 12 \<and> Unmarshal c0 buf = Inr v \<longrightarrow> SampleRate v = sampleRates ! i)
        \<and> (i = 15 \<and> ReadBits buf 9 24 = Inl e \<longrightarrow> Unmarshal c0 buf = Inl e)
        \<and> (i = 15 \<and> ReadBits buf 9 24 = Inr (r, q) \<and> Unmarshal c0 buf = Inr v \<longrightarrow>
             SampleRate v = int r)"
    if t: "ReadBits buf 0 5 = Inr (t, 5)"
      "int t = ObjectTypeAACLC \<or> int t = ObjectTypeSBR \<or> int t = ObjectTypePS"
      and rd: "ReadBits buf 5 4 = Inr (i, 9)"
  proof -
    let ?c1 = "c0\<lparr>Type := int t\<rparr>"
    note eq = unmarshalSampleRate_read [OF rd, of ?c1]
    have a: "Unmarshal c0 buf = Inl (InvalidSampleRateIndex i)" if "i = 13 \<or> i = 14"
    proof -
      have "unmarshalSampleRate ?c1 buf 5 = Inl (InvalidSampleRateIndex i)"
        using eq that by auto
      from Unmarshal_rate_error [OF t this] show ?thesis .
    qed
    have b: "SampleRate v = sampleRates ! i" if "i \<le> 12" "Unmarshal c0 buf = Inr v"
    proof -
      have "unmarshalSampleRate ?c1 buf 5 = Inr (?c1\<lparr>SampleRate := sampleRates ! i\<rparr>, 9)"
        using eq that(1) by simp
      from Unmarshal_after_rate [OF t this that(2)] show ?thesis by simp
    qed
    have c: "Unmarshal c0 buf = Inl e" if "i = 15" "ReadBits buf 9 24 = Inl e"
    proof -
      have "unmarshalSampleRate ?c1 buf 5 = Inl e"
        using eq that by simp
      from Unmarshal_rate_error [OF t this] show ?thesis .
    qed
    have d: "SampleRate v = int r"
      if "i = 15" "ReadBits buf 9 24 = Inr (r, q)" "Unmarshal c0 buf = Inr v"
    proof -
      have "unmarshalSampleRate ?c1 buf 5 = Inr (?c1\<lparr>SampleRate := int r\<rparr>, q)"
        using eq that(1,2) by simp
      from Unmarshal_after_rate [OF t this that(3)] show ?thesis by simp
    qed
    show ?thesis using a b c d by blast
  qed
  have s: "ChannelCount c \<in> {1, 2, 3, 4, 5, 6, 8} \<longleftrightarrow> validChannelCount (ChannelCount c)"
    by (simp add: validChannelCount_cases)
  have 3: "\<exists>enc. Marshal c = Inr enc
          \<and> (case reverseSampleRates (SampleRate c) of
                Some k \<Rightarrow>
                  ReadBits enc 5 4 = Inr (nat k, 9) \<and> nat k \<le> 12
                  \<and> sampleRates ! nat k = SampleRate c
                  \<and> ReadBits enc 9 4
                      = Inr (if ChannelCount c = 8 then 7 else nat (ChannelCount c), 13)
              | None \<Rightarrow>
                  ReadBits enc 5 4 = Inr (15, 9)
                  \<and> ReadBits enc 9 24 = Inr (nat (SampleRate c mod 2 ^ 24), 33)
                  \<and> ReadBits enc 33 4
                      = Inr (if ChannelCount c = 8 then 7 else nat (ChannelCount c), 37))"
    if "validChannelCount (ChannelCount c)"
  proof -
    from Marshal_valid [OF that] obtain enc where m: "Marshal c = Inr enc" by blast
    note f2 = Marshal_fields(2) [OF m]
    note f3 = Marshal_fields(3) [OF m]
    show ?thesis
    proof (cases "reverseSampleRates (SampleRate c)")
      case None
      then have "rateWidth (SampleRate c) = 28" by (simp add: rateWidth_def)
      then show ?thesis using m f2 f3 None by auto
    next
      case (Some k)
      then have w: "rateWidth (SampleRate c) = 4" by (simp add: rateWidth_def)
      from reverseSampleRates_Some [OF Some]
      have k: "0 \<le> k" "k \<le> 12" and "sampleRates ! nat k = SampleRate c" by simp_all
      moreover from k have "nat k \<le> 12" by linarith
      ultimately show ?thesis using m f2 f3 Some w by auto
    qed
  qed
  have 4: "\<exists>enc w. Marshal c = Inr enc \<and> ReadBits enc 5 4 = Inr (15, 9)
           \<and> ReadBits enc 9 24 = Inr (nat (SampleRate c), 33)
           \<and> Unmarshal zeroConfig enc = Inr w \<and> SampleRate w = SampleRate c"
    if v: "validChannelCount (ChannelCount c)" and t: "Type c = ObjectTypeAACLC"
      and n: "reverseSampleRates (SampleRate c) = None"
      and b: "0 \<le> SampleRate c" "SampleRate c < 2 ^ 24"
  proof -
    from Unmarshal_Marshal [OF t v] obtain enc where
      m: "Marshal c = Inr enc" and u: "Unmarshal zeroConfig enc = Inr (readBack c)"
      by (auto simp: Unmarshal_def)
    have "SampleRate (readBack c) = SampleRate c"
      using b by (simp add: readBack_def readRate_small)
    moreover have "ReadBits enc 5 4 = Inr (15, 9)"
      "ReadBits enc 9 24 = Inr (nat (SampleRate c), 33)"
      using Marshal_fields(2) [OF m] n b by simp_all
    ultimately show ?thesis using m u by blast
  qed
  show ?thesis
    unfolding s
    apply (intro conjI impI)
    subgoal using 1 by blast
    subgoal using 1 by blast
    subgoal using 2 by blast
    subgoal using 2 by blast
    subgoal using 2 by blast
    subgoal using 2 by blast
    subgoal using 3 by blast
    subgoal using 4 by blast
    done
qed

text \<open>
  The index 4 (44100 Hz), the index 13, and the rate 12345 Hz, decoded and encoded.
\<close>

theorem sample_rate_index_and_escape_witness:
  "ReadBits [18, 16] 5 4 = Inr (4, 9)
   \<and> unmarshalSampleRate zeroConfig [18, 16] 5
       = Inr (zeroConfig\<lparr>SampleRate := 44100\<rparr>, 9)
   \<and> ReadBits [22, 144] 5 4 = Inr (13, 9)
   \<and> Unmarshal zeroConfig [22, 144] = Inl (InvalidSampleRateIndex 13)
   \<and> ReadBits [23, 128, 24, 28, 136] 5 4 = Inr (15, 9)
   \<and> ReadBits [23, 128, 24, 28, 136] 9 24 = Inr (12345, 33)
   \<and> Unmarshal zeroConfig [23, 128, 24, 28, 136]
       = Inr \<lparr>Type = 2, SampleRate = 12345, ChannelCount = 1, ExtensionType = 0,
           ExtensionSampleRate = 0, FrameLengthFlag = False, DependsOnCoreCoder = False,
           CoreCoderDelay = 0\<rparr>
   \<and> Marshal \<lparr>Type = 2, SampleRate = 12345, ChannelCount = 2, ExtensionType = 0,
           ExtensionSampleRate = 0, FrameLengthFlag = False, DependsOnCoreCoder = False,
           CoreCoderDelay = 0\<rparr> = Inr [23, 128, 24, 28, 144]
   \<and> ReadBits [23, 128, 24, 28, 144] 5 4 = Inr (15, 9)
   \<and> ReadBits [23, 128, 24, 28, 144] 9 24 = Inr (12345, 33)
   \<and> (\<exists>w. Unmarshal zeroConfig [23, 128, 24, 28, 144] = Inr w \<and> SampleRate w = 12345)"
proof -
  let ?c = "\<lparr>Type = 2, SampleRate = 12345, ChannelCount = 2, ExtensionType = 0,
           ExtensionSampleRate = 0, FrameLengthFlag = False, DependsOnCoreCoder = False,
           CoreCoderDelay = 0\<rparr>"
  let ?v = "\<lparr>Type = 2, SampleRate = 12345, ChannelCount = 1, ExtensionType = 0,
           ExtensionSampleRate = 0, FrameLengthFlag = False, DependsOnCoreCoder = False,
           CoreCoderDelay = 0\<rparr>"
  have r1: "ReadBits [18, 16] 5 4 = Inr (4, 9)"
    and r2: "ReadBits [22, 144] 0 5 = Inr (2, 5)" "ReadBits [22, 144] 5 4 = Inr (13, 9)"
    and r3: "ReadBits [23, 128, 24, 28, 136] 0 5 = Inr (2, 5)"
      "ReadBits [23, 128, 24, 28, 136] 5 4 = Inr (15, 9)"
      "ReadBits [23, 128, 24, 28, 136] 9 24 = Inr (12345, 33)"
    by (simp_all add: decode_eval)
  have u3: "Unmarshal zeroConfig [23, 128, 24, 28, 136] = Inr ?v"
    by (simp add: decode_eval)
  have m: "Marshal ?c = Inr [23, 128, 24, 28, 144]"
    by (rule Marshal_bytes) (simp_all add: layout_eval)
  have t2: "int 2 = ObjectTypeAACLC \<or> int 2 = ObjectTypeSBR \<or> int 2 = ObjectTypePS"
    by (simp add: ObjectTypeAACLC_def)
  have hc: "ChannelCount ?c \<in> {1, 2, 3, 4, 5, 6, 8} \<and> Type ?c = ObjectTypeAACLC
        \<and> reverseSampleRates (SampleRate ?c) = None
        \<and> 0 \<le> SampleRate ?c \<and> SampleRate ?c < 2 ^ 24"
    by (simp add: ObjectTypeAACLC_def reverseSampleRates_def)
  note P1 = sample_rate_index_and_escape [THEN conjunct1, rule_format]
  note P2 = sample_rate_index_and_escape [THEN conjunct2, THEN conjunct1, rule_format]
  note P4 = sample_rate_index_and_escape
    [THEN conjunct2, THEN conjunct2, THEN conjunct2, rule_format]
  have 1: "unmarshalSampleRate zeroConfig [18, 16] 5
             = Inr (zeroConfig\<lparr>SampleRate := 44100\<rparr>, 9)"
    using P1 [OF r1, of zeroConfig, THEN conjunct2] by (simp add: sampleRates_def)
  note Q2 = P2 [OF conjI [OF r2(1) conjI [OF t2 r2(2)]], of zeroConfig]
  have 2: "Unmarshal zeroConfig [22, 144] = Inl (InvalidSampleRateIndex 13)"
    using Q2 [THEN conjunct1] by simp
  note Q3 = P2 [OF conjI [OF r3(1) conjI [OF t2 r3(2)]], of zeroConfig ?v _ 12345 33]
  have 3: "SampleRate ?v = int 12345"
    using Q3 [THEN conjunct2, THEN conjunct2, THEN conjunct2] r3(3) u3
    by (simp only: simp_thms)
  from P4 [OF hc]
  obtain enc w where "Marshal ?c = Inr enc" "ReadBits enc 5 4 = Inr (15, 9)"
    "ReadBits enc 9 24 = Inr (nat (SampleRate ?c), 33)"
    "Unmarshal zeroConfig enc = Inr w" "SampleRate w = SampleRate ?c"
    by blast
  then have 4: "ReadBits [23, 128, 24, 28, 144] 5 4 = Inr (15, 9)"
    "ReadBits [23, 128, 24, 28, 144] 9 24 = Inr (12345, 33)"
    "\<exists>w. Unmarshal zeroConfig [23, 128, 24, 28, 144] = Inr w \<and> SampleRate w = 12345"
    unfolding m by auto
  show ?thesis using r1 1 r2(2) 2 r3(2,3) u3 m 4 by (simp only: simp_thms)
qed

section \<open>The channel configuration\<close>

lemma Unmarshal_channel_stage:
  assumes t: "ReadBits buf 0 5 = Inr (t, 5)"
    "int t = ObjectTypeAACLC \<or> int t = ObjectTypeSBR \<or> int t = ObjectTypePS"
    and r: "unmarshalSampleRate (c0\<lparr>Type := int t\<rparr>) buf 5 = Inr (c2, p2)"
    and rd: "ReadBits buf p2 4 = Inr (ch, p3)"
  shows "(ch = 0 \<longrightarrow> Unmarshal c0 buf = Inl NotYetSupported)
       \<and> (8 \<le> ch \<longrightarrow> Unmarshal c0 buf = Inl (InvalidChannelConfiguration ch))
       \<and> (Unmarshal c0 buf = Inr v \<longrightarrow>
            1 \<le> ch \<and> ch \<le> 7 \<and> ChannelCount v = (if ch = 7 then 8 else int ch))"
proof -
  have s1: "unmarshalType c0 buf 0 = Inr (c0\<lparr>Type := int t\<rparr>, 5)"
    using t by (simp add: unmarshalType_read)
  note eq = unmarshalChannelConfig_read [OF rd, of c2]
  have a: "Unmarshal c0 buf = Inl NotYetSupported" if "ch = 0"
  proof -
    have "unmarshalChannelConfig c2 buf p2 = Inl NotYetSupported"
      using eq that by simp
    then have "UnmarshalFromPos c0 buf 0 = Inl NotYetSupported"
      using s1 r by (simp add: UnmarshalFromPos_def bind_err_def)
    then show ?thesis by (rule Unmarshal_Inl_I)
  qed
  have b: "Unmarshal c0 buf = Inl (InvalidChannelConfiguration ch)" if "8 \<le> ch"
  proof -
    have "unmarshalChannelConfig c2 buf p2 = Inl (InvalidChannelConfiguration ch)"
      using eq that by simp
    then have "UnmarshalFromPos c0 buf 0 = Inl (InvalidChannelConfiguration ch)"
      using s1 r by (simp add: UnmarshalFromPos_def bind_err_def)
    then show ?thesis by (rule Unmarshal_Inl_I)
  qed
  have c: "1 \<le> ch \<and> ch \<le> 7 \<and> ChannelCount v = (if ch = 7 then 8 else int ch)"
    if u: "Unmarshal c0 buf = Inr v"
  proof -
    from Unmarshal_Inr_D [OF u] obtain p where "UnmarshalFromPos c0 buf 0 = Inr (v, p)" ..
    then obtain c1 p1 d2 q2 c3 q3 c4 p4 where
      t1: "unmarshalType c0 buf 0 = Inr (c1, p1)" and
      t2: "unmarshalSampleRate c1 buf p1 = Inr (d2, q2)" and
      t3: "unmarshalChannelConfig d2 buf q2 = Inr (c3, q3)" and
      t4: "unmarshalExtension c3 buf q3 = Inr (c4, p4)" and
      t5: "unmarshalFlags c4 buf p4 = Inr (v, p)"
      by (rule UnmarshalFromPos_stages)
    have "c1 = c0\<lparr>Type := int t\<rparr>" "p1 = 5" using t1 s1 by simp_all
    then have "d2 = c2" "q2 = p2" using t2 r by simp_all
    then have e3: "unmarshalChannelConfig c2 buf p2 = Inr (c3, q3)" using t3 by simp
    have range: "1 \<le> ch \<and> ch \<le> 7"
      using e3 eq by (auto split: if_splits)
    have "ChannelCount c3 = (if ch = 7 then 8 else int ch)"
      using e3 eq by (auto split: if_splits)
    then show ?thesis
      using range after_channel_preserves [OF t4 t5] by simp
  qed
  show ?thesis using a b c by blast
qed

text \<open>
  Claim C4. The channel block reads a 4-bit code: the codes 1 to 6 give the channel
  counts 1 to 6, the code 7 gives 8, the code 0 and the codes 8 to 15 fail; the same
  holds of \<open>Unmarshal\<close> on a buffer whose type and rate fields are accepted. The encoder
  writes, behind the rate field, the code of a channel count among 1 to 6 and 8, refuses
  every other count, and decoding the encoding of a base-profile record returns the
  channel count.
\<close>

theorem channel_configuration_mapping:
  "(ReadBits buf pos 4 = Inr (ch, p) \<longrightarrow>
      ch < 16
      \<and> unmarshalChannelConfig c buf pos =
           (if ch = 0 then Inl NotYetSupported
            else if ch \<le> 6 then Inr (c\<lparr>ChannelCount := int ch\<rparr>, p)
            else if ch = 7 then Inr (c\<lparr>ChannelCount := 8\<rparr>, p)
            else Inl (InvalidChannelConfiguration ch)))
   \<and> (ReadBits buf 0 5 = Inr (t, 5)
        \<and> (int t = ObjectTypeAACLC \<or> int t = ObjectTypeSBR \<or> int t = ObjectTypePS)
        \<and> ReadBits buf 5 4 = Inr (i, 9)
        \<and> (i \<le> 12 \<and> p2 = 9 \<or> i = 15 \<and> ReadBits buf 9 24 = Inr (r, 33) \<and> p2 = 33)
        \<and> ReadBits buf p2 4 = Inr (ch, p3) \<longrightarrow>
        (ch = 0 \<longrightarrow> Unmarshal c0 buf = Inl NotYetSupported)
        \<and> (8 \<le> ch \<longrightarrow> Unmarshal c0 buf = Inl (InvalidChannelConfiguration ch))
        \<and> (Unmarshal c0 buf = Inr v \<longrightarrow>
             1 \<le> ch \<and> ch \<le> 7 \<and> ChannelCount v = (if ch = 7 then 8 else int ch)))
   \<and> (ChannelCount c \<in> {1, 2, 3, 4, 5, 6, 8} \<longrightarrow>
        (\<exists>enc code. Marshal c = Inr enc
           \<and> ReadBits enc (5 + rateWidth (SampleRate c)) 4
               = Inr (code, 9 + rateWidth (SampleRate c))
           \<and> 1 \<le> code \<and> code \<le> 7
           \<and> ChannelCount c = (if code = 7 then 8 else int code)))
   \<and> (ChannelCount c \<notin> {1, 2, 3, 4, 5, 6, 8} \<longrightarrow>
        Marshal c = Inl (InvalidChannelCount (ChannelCount c)))
   \<and> (ChannelCount c \<in> {1, 2, 3, 4, 5, 6, 8} \<and> Type c = ObjectTypeAACLC \<longrightarrow>
        (\<exists>enc w. Marshal c = Inr enc \<and> Unmarshal zeroConfig enc = Inr w
           \<and> ChannelCount w = ChannelCount c))"
proof -
  have 1: "ch < 16
      \<and> unmarshalChannelConfig c buf pos =
           (if ch = 0 then Inl NotYetSupported
            else if ch \<le> 6 then Inr (c\<lparr>ChannelCount := int ch\<rparr>, p)
            else if ch = 7 then Inr (c\<lparr>ChannelCount := 8\<rparr>, p)
            else Inl (InvalidChannelConfiguration ch))"
    if rd: "ReadBits buf pos 4 = Inr (ch, p)"
    using ReadBits_Inr [OF rd] unmarshalChannelConfig_read [OF rd] by simp
  have 2: "(ch = 0 \<longrightarrow> Unmarshal c0 buf = Inl NotYetSupported)
        \<and> (8 \<le> ch \<longrightarrow> Unmarshal c0 buf = Inl (InvalidChannelConfiguration ch))
        \<and> (Unmarshal c0 buf = Inr v \<longrightarrow>
             1 \<le> ch \<and> ch \<le> 7 \<and> ChannelCount v = (if ch = 7 then 8 else int ch))"
    if t: "ReadBits buf 0 5 = Inr (t, 5)"
      "int t = ObjectTypeAACLC \<or> int t = ObjectTypeSBR \<or> int t = ObjectTypePS"
      and ri: "ReadBits buf 5 4 = Inr (i, 9)"
      and path: "i \<le> 12 \<and> p2 = 9 \<or> i = 15 \<and> ReadBits buf 9 24 = Inr (r, 33) \<and> p2 = 33"
      and rd: "ReadBits buf p2 4 = Inr (ch, p3)"
  proof -
    let ?c1 = "c0\<lparr>Type := int t\<rparr>"
    note eq = unmarshalSampleRate_read [OF ri, of ?c1]
    from path have "\<exists>c2. unmarshalSampleRate ?c1 buf 5 = Inr (c2, p2)"
      using eq by auto
    then obtain c2 where "unmarshalSampleRate ?c1 buf 5 = Inr (c2, p2)" ..
    from Unmarshal_channel_stage [OF t this rd] show ?thesis .
  qed
  have s: "ChannelCount c \<in> {1, 2, 3, 4, 5, 6, 8} \<longleftrightarrow> validChannelCount (ChannelCount c)"
    by (simp add: validChannelCount_cases)
  have 3: "\<exists>enc code. Marshal c = Inr enc
           \<and> ReadBits enc (5 + rateWidth (SampleRate c)) 4
               = Inr (code, 9 + rateWidth (SampleRate c))
           \<and> 1 \<le> code \<and> code \<le> 7
           \<and> ChannelCount c = (if code = 7 then 8 else int code)"
    if v: "validChannelCount (ChannelCount c)"
  proof -
    from Marshal_valid [OF v] obtain enc where m: "Marshal c = Inr enc" by blast
    let ?code = "if ChannelCount c = 8 then 7 else nat (ChannelCount c)"
    have "1 \<le> ?code \<and> ?code \<le> 7 \<and> ChannelCount c = (if ?code = 7 then 8 else int ?code)"
      using v unfolding validChannelCount_cases by auto
    then show ?thesis using m Marshal_fields(3) [OF m] by blast
  qed
  have 4: "Marshal c = Inl (InvalidChannelCount (ChannelCount c))"
    if "\<not> validChannelCount (ChannelCount c)"
    using that by (rule Marshal_invalid)
  have 5: "\<exists>enc w. Marshal c = Inr enc \<and> Unmarshal zeroConfig enc = Inr w
           \<and> ChannelCount w = ChannelCount c"
    if v: "validChannelCount (ChannelCount c)" and t: "Type c = ObjectTypeAACLC"
  proof -
    from Unmarshal_Marshal [OF t v] obtain enc where
      "Marshal c = Inr enc" "Unmarshal zeroConfig enc = Inr (readBack c)"
      by (auto simp: Unmarshal_def)
    moreover have "ChannelCount (readBack c) = ChannelCount c"
      by (simp add: readBack_def)
    ultimately show ?thesis by blast
  qed
  show ?thesis
    unfolding s
    apply (intro conjI impI)
    subgoal using 1 by blast
    subgoal using 1 by blast
    subgoal using 2 by blast
    subgoal using 2 by blast
    subgoal using 2 by blast
    subgoal using 2 by blast
    subgoal using 2 by blast
    subgoal using 3 by blast
    subgoal using 4 by blast
    subgoal using 5 by blast
    done
qed

text \<open>
  The codes 0, 8, 6 and 7 decoded, the count 8 encoded, the counts 7 and 0 refused.
\<close>

theorem channel_configuration_mapping_witness:
  "ReadBits [18, 0] 9 4 = Inr (0, 13)
   \<and> Unmarshal zeroConfig [18, 0] = Inl NotYetSupported
   \<and> ReadBits [18, 64] 9 4 = Inr (8, 13)
   \<and> Unmarshal zeroConfig [18, 64] = Inl (InvalidChannelConfiguration 8)
   \<and> ReadBits [18, 48] 9 4 = Inr (6, 13)
   \<and> unmarshalChannelConfig zeroConfig [18, 48] 9
       = Inr (zeroConfig\<lparr>ChannelCount := 6\<rparr>, 13)
   \<and> ReadBits [18, 56] 9 4 = Inr (7, 13)
   \<and> Unmarshal zeroConfig [18, 56]
       = Inr \<lparr>Type = 2, SampleRate = 44100, ChannelCount = 8, ExtensionType = 0,
           ExtensionSampleRate = 0, FrameLengthFlag = False, DependsOnCoreCoder = False,
           CoreCoderDelay = 0\<rparr>
   \<and> Marshal \<lparr>Type = 2, SampleRate = 44100, ChannelCount = 8, ExtensionType = 0,
           ExtensionSampleRate = 0, FrameLengthFlag = False, DependsOnCoreCoder = False,
           CoreCoderDelay = 0\<rparr> = Inr [18, 56]
   \<and> Marshal \<lparr>Type = 2, SampleRate = 44100, ChannelCount = 7, ExtensionType = 0,
           ExtensionSampleRate = 0, FrameLengthFlag = False, DependsOnCoreCoder = False,
           CoreCoderDelay = 0\<rparr> = Inl (InvalidChannelCount 7)
   \<and> Marshal \<lparr>Type = 2, SampleRate = 44100, ChannelCount = 0, ExtensionType = 0,
           ExtensionSampleRate = 0, FrameLengthFlag = False, DependsOnCoreCoder = False,
           CoreCoderDelay = 0\<rparr> = Inl (InvalidChannelCount 0)
   \<and> (\<exists>w. Unmarshal zeroConfig [18, 56] = Inr w \<and> ChannelCount w = 8)"
proof -
  let ?c8 = "\<lparr>Type = 2, SampleRate = 44100, ChannelCount = 8, ExtensionType = 0,
           ExtensionSampleRate = 0, FrameLengthFlag = False, DependsOnCoreCoder = False,
           CoreCoderDelay = 0\<rparr>"
  let ?c7 = "\<lparr>Type = 2, SampleRate = 44100, ChannelCount = 7, ExtensionType = 0,
           ExtensionSampleRate = 0, FrameLengthFlag = False, DependsOnCoreCoder = False,
           CoreCoderDelay = 0\<rparr>"
  let ?c0 = "\<lparr>Type = 2, SampleRate = 44100, ChannelCount = 0, ExtensionType = 0,
           ExtensionSampleRate = 0, FrameLengthFlag = False, DependsOnCoreCoder = False,
           CoreCoderDelay = 0\<rparr>"
  note P1 = channel_configuration_mapping [THEN conjunct1, rule_format]
  note P2 = channel_configuration_mapping [THEN conjunct2, THEN conjunct1, rule_format]
  note P4 = channel_configuration_mapping
    [THEN conjunct2, THEN conjunct2, THEN conjunct2, THEN conjunct1, rule_format]
  note P5 = channel_configuration_mapping
    [THEN conjunct2, THEN conjunct2, THEN conjunct2, THEN conjunct2, rule_format]
  have t2: "int 2 = ObjectTypeAACLC \<or> int 2 = ObjectTypeSBR \<or> int 2 = ObjectTypePS"
    by (simp add: ObjectTypeAACLC_def)
  have path: "(4::nat) \<le> 12 \<and> (9::nat) = 9 \<or> (4::nat) = 15 \<and> ReadBits b 9 24 = Inr (0, 33) \<and> (9::nat) = 33"
    for b by simp
  have a: "ReadBits [18, 0] 0 5 = Inr (2, 5)" "ReadBits [18, 0] 5 4 = Inr (4, 9)"
    "ReadBits [18, 0] 9 4 = Inr (0, 13)"
    and b: "ReadBits [18, 64] 0 5 = Inr (2, 5)" "ReadBits [18, 64] 5 4 = Inr (4, 9)"
    "ReadBits [18, 64] 9 4 = Inr (8, 13)"
    and c: "ReadBits [18, 48] 9 4 = Inr (6, 13)"
    and d: "ReadBits [18, 56] 0 5 = Inr (2, 5)" "ReadBits [18, 56] 5 4 = Inr (4, 9)"
    "ReadBits [18, 56] 9 4 = Inr (7, 13)"
    by (simp_all add: decode_eval)
  have u: "Unmarshal zeroConfig [18, 56] = Inr ?c8"
    by (simp add: decode_eval)
  have m: "Marshal ?c8 = Inr [18, 56]"
    by (rule Marshal_bytes) (simp_all add: layout_eval)
  note Qa = P2 [OF conjI [OF a(1) conjI [OF t2 conjI [OF a(2) conjI [OF path a(3)]]]],
    of zeroConfig]
  have 1: "Unmarshal zeroConfig [18, 0] = Inl NotYetSupported"
    using Qa [THEN conjunct1] by simp
  note Qb = P2 [OF conjI [OF b(1) conjI [OF t2 conjI [OF b(2) conjI [OF path b(3)]]]],
    of zeroConfig]
  have 2: "Unmarshal zeroConfig [18, 64] = Inl (InvalidChannelConfiguration 8)"
    using Qb [THEN conjunct2, THEN conjunct1] by simp
  have 3: "unmarshalChannelConfig zeroConfig [18, 48] 9
             = Inr (zeroConfig\<lparr>ChannelCount := 6\<rparr>, 13)"
    using P1 [OF c, of zeroConfig, THEN conjunct2] by simp
  have 4: "Marshal ?c7 = Inl (InvalidChannelCount 7)"
    using P4 [of ?c7] by simp
  have 5: "Marshal ?c0 = Inl (InvalidChannelCount 0)"
    using P4 [of ?c0] by simp
  have hc: "ChannelCount ?c8 \<in> {1, 2, 3, 4, 5, 6, 8} \<and> Type ?c8 = ObjectTypeAACLC"
    by (simp add: ObjectTypeAACLC_def)
  from P5 [OF hc] obtain enc w where "Marshal ?c8 = Inr enc"
    "Unmarshal zeroConfig enc = Inr w" "ChannelCount w = ChannelCount ?c8"
    by blast
  then have 6: "\<exists>w. Unmarshal zeroConfig [18, 56] = Inr w \<and> ChannelCount w = 8"
    unfolding m by auto
  show ?thesis using a(3) 1 b(3) 2 c 3 d(3) u m 4 5 6 by (simp only: simp_thms)
qed

section \<open>The SBR and PS extension\<close>

lemma ReadBits_Inl: "ReadBits buf pos n = Inl e \<Longrightarrow> e = NotEnoughBits"
  by (simp add: ReadBits_def split: if_splits)

lemma ReadFlag_Inl: "ReadFlag buf pos = Inl e \<Longrightarrow> e = NotEnoughBits"
  by (simp add: ReadFlag_def split: if_splits)

lemma unmarshalExtension_as_rate:
  assumes "Type c = ObjectTypeSBR \<or> Type c = ObjectTypePS"
  shows "unmarshalExtension c buf pos =
       (case unmarshalSampleRate c buf pos of
          Inl e \<Rightarrow>
            Inl (case e of
                   InvalidSampleRateIndex i \<Rightarrow> InvalidExtensionSampleRateIndex i
                 | _ \<Rightarrow> e)
        | Inr (c', p) \<Rightarrow>
            (case ReadBits buf p 5 of
               Inl e \<Rightarrow> Inl e
             | Inr (t2, q) \<Rightarrow>
                 if int t2 = ObjectTypeAACLC
                 then Inr (c\<lparr>ExtensionType := Type c, ExtensionSampleRate := SampleRate c',
                            Type := ObjectTypeAACLC\<rparr>, q)
                 else Inl (UnsupportedObjectType (int t2))))"
proof (cases "ReadBits buf pos 4")
  case (Inl e)
  then show ?thesis
    using assms ReadBits_Inl [OF Inl]
    by (simp add: unmarshalExtension_def unmarshalSampleRate_def)
next
  case (Inr ip)
  obtain i p where ip: "ip = (i, p)" by (cases ip)
  show ?thesis
  proof (cases "i \<le> 12")
    case True
    then show ?thesis
      using assms Inr ip
      by (simp add: unmarshalExtension_def unmarshalSampleRate_def bind_err_def Let_def
            split: sum.splits)
  next
    case False
    show ?thesis
    proof (cases "i = 15")
      case i: True
      show ?thesis
      proof (cases "ReadBits buf p 24")
        case (Inl e)
        then show ?thesis
          using assms Inr ip i ReadBits_Inl [OF Inl]
          by (simp add: unmarshalExtension_def unmarshalSampleRate_def bind_err_def Let_def)
      next
        case r: (Inr rq)
        obtain r' q where rq: "rq = (r', q)" by (cases rq)
        show ?thesis
          using assms Inr ip i r rq
          by (simp add: unmarshalExtension_def unmarshalSampleRate_def bind_err_def Let_def
                split: sum.splits)
      qed
    next
      case i: False
      then show ?thesis
        using assms Inr ip False
        by (simp add: unmarshalExtension_def unmarshalSampleRate_def bind_err_def Let_def)
    qed
  qed
qed

lemma Unmarshal_extension_recorded:
  assumes t: "ReadBits buf 0 5 = Inr (t, 5)" "int t = ObjectTypeSBR \<or> int t = ObjectTypePS"
    and u: "Unmarshal c0 buf = Inr v"
  shows "ExtensionType v = int t \<and> Type v = ObjectTypeAACLC"
proof -
  from Unmarshal_Inr_D [OF u] obtain p where "UnmarshalFromPos c0 buf 0 = Inr (v, p)" ..
  then obtain c1 p1 c2 p2 c3 p3 c4 p4 where
    s1: "unmarshalType c0 buf 0 = Inr (c1, p1)" and
    s2: "unmarshalSampleRate c1 buf p1 = Inr (c2, p2)" and
    s3: "unmarshalChannelConfig c2 buf p2 = Inr (c3, p3)" and
    s4: "unmarshalExtension c3 buf p3 = Inr (c4, p4)" and
    s5: "unmarshalFlags c4 buf p4 = Inr (v, p)"
    by (rule UnmarshalFromPos_stages)
  have "c1 = c0\<lparr>Type := int t\<rparr>"
    using s1 t by (simp add: unmarshalType_read)
  then have t1: "Type c1 = int t" by simp
  from unmarshalSampleRate_post [OF s2] have "c2 = c1\<lparr>SampleRate := SampleRate c2\<rparr>" by simp
  then have t2: "Type c2 = Type c1"
    by (metis (no_types) AudioSpecificConfig.select_convs(1)
        AudioSpecificConfig.surjective AudioSpecificConfig.update_convs(2))
  from unmarshalChannelConfig_post [OF s3]
  have "c3 = c2\<lparr>ChannelCount := ChannelCount c3\<rparr>" by simp
  then have t3: "Type c3 = Type c2"
    by (metis (no_types) AudioSpecificConfig.select_convs(1)
        AudioSpecificConfig.surjective AudioSpecificConfig.update_convs(3))
  have e: "Type c3 = 5 \<or> Type c3 = 29"
    using t(2) t1 t2 t3 by (simp add: ObjectTypeSBR_def ObjectTypePS_def)
  with unmarshalExtension_post [OF s4]
  have c4: "c4 = c3\<lparr>ExtensionType := Type c3,
      ExtensionSampleRate := ExtensionSampleRate c4, Type := 2\<rparr>" by auto
  have f4: "ExtensionType c4 = Type c3" "Type c4 = 2"
    by (subst c4, simp)+
  from unmarshalFlags_post [OF s5]
  have "v = c4\<lparr>FrameLengthFlag := FrameLengthFlag v,
      DependsOnCoreCoder := DependsOnCoreCoder v, CoreCoderDelay := CoreCoderDelay v\<rparr>"
    by simp
  then have "ExtensionType v = ExtensionType c4" "Type v = Type c4"
    by (metis (no_types) AudioSpecificConfig.select_convs(1,4)
        AudioSpecificConfig.surjective AudioSpecificConfig.update_convs(6,7,8))+
  then show ?thesis
    using f4 t1 t2 t3 by (simp add: ObjectTypeAACLC_def)
qed

text \<open>
  Claim C2. On a record whose \<open>Type\<close> is SBR or PS the extension block records that type
  as \<open>ExtensionType\<close>, decodes the extension rate with the block of the core rate (an invalid
  index is reported as an invalid extension index), then reads a second 5-bit type,
  which must be the base low-complexity profile or the block fails; on a base-profile
  record the block does nothing. A successful decoding of a buffer that starts with the
  SBR or PS type returns a record with that extension type, with the base profile as
  \<open>Type\<close>, and in the decoder's range. Encoding a record of that range with an extension
  and decoding the result preserves \<open>Type\<close>, \<open>ExtensionType\<close> and both sample rates.
\<close>

theorem extension_nesting:
  "(Type c = ObjectTypeSBR \<or> Type c = ObjectTypePS \<longrightarrow>
      unmarshalExtension c buf pos =
       (case unmarshalSampleRate c buf pos of
          Inl e \<Rightarrow>
            Inl (case e of
                   InvalidSampleRateIndex i \<Rightarrow> InvalidExtensionSampleRateIndex i
                 | _ \<Rightarrow> e)
        | Inr (c', p) \<Rightarrow>
            (case ReadBits buf p 5 of
               Inl e \<Rightarrow> Inl e
             | Inr (t2, q) \<Rightarrow>
                 if int t2 = ObjectTypeAACLC
                 then Inr (c\<lparr>ExtensionType := Type c, ExtensionSampleRate := SampleRate c',
                            Type := ObjectTypeAACLC\<rparr>, q)
                 else Inl (UnsupportedObjectType (int t2)))))
   \<and> (Type c = ObjectTypeAACLC \<longrightarrow> unmarshalExtension c buf pos = Inr (c, pos))
   \<and> (ReadBits buf 0 5 = Inr (t, 5) \<and> (int t = ObjectTypeSBR \<or> int t = ObjectTypePS)
        \<and> Unmarshal zeroConfig buf = Inr v \<longrightarrow>
        ExtensionType v = int t \<and> Type v = ObjectTypeAACLC \<and> inDecodeDomain v)
   \<and> (inDecodeDomain w \<and> hasExtension w \<longrightarrow>
        (\<exists>enc w'. Marshal w = Inr enc
           \<and> ReadBits enc 0 5 = Inr (nat (ExtensionType w), 5)
           \<and> ReadBits enc
                (9 + rateWidth (SampleRate w) + rateWidth (ExtensionSampleRate w)) 5
               = Inr (2, 14 + rateWidth (SampleRate w) + rateWidth (ExtensionSampleRate w))
           \<and> Unmarshal zeroConfig enc = Inr w'
           \<and> Type w' = ObjectTypeAACLC \<and> ExtensionType w' = ExtensionType w
           \<and> SampleRate w' = SampleRate w
           \<and> ExtensionSampleRate w' = ExtensionSampleRate w))"
proof -
  have 3: "ExtensionType v = int t \<and> Type v = ObjectTypeAACLC \<and> inDecodeDomain v"
    if "ReadBits buf 0 5 = Inr (t, 5)" "int t = ObjectTypeSBR \<or> int t = ObjectTypePS"
      "Unmarshal zeroConfig buf = Inr v"
    using Unmarshal_extension_recorded [OF that] Unmarshal_inDecodeDomain [OF that(3)]
    by simp
  have 4: "\<exists>enc w'. Marshal w = Inr enc
           \<and> ReadBits enc 0 5 = Inr (nat (ExtensionType w), 5)
           \<and> ReadBits enc
                (9 + rateWidth (SampleRate w) + rateWidth (ExtensionSampleRate w)) 5
               = Inr (2, 14 + rateWidth (SampleRate w) + rateWidth (ExtensionSampleRate w))
           \<and> Unmarshal zeroConfig enc = Inr w'
           \<and> Type w' = ObjectTypeAACLC \<and> ExtensionType w' = ExtensionType w
           \<and> SampleRate w' = SampleRate w
           \<and> ExtensionSampleRate w' = ExtensionSampleRate w"
    if d: "inDecodeDomain w" and x: "hasExtension w"
  proof -
    from d have w: "Type w = ObjectTypeAACLC" "validChannelCount (ChannelCount w)"
      "readBack w = w"
      by (simp_all add: inDecodeDomain_iff)
    from Unmarshal_Marshal [OF w(1,2)] w(3) obtain enc where
      m: "Marshal w = Inr enc" and u: "Unmarshal zeroConfig enc = Inr w"
      by (auto simp: Unmarshal_def)
    have "ExtensionType w = 5 \<or> ExtensionType w = 29"
      using x by (simp add: hasExtension_def ObjectTypeSBR_def ObjectTypePS_def)
    then have "nat (ExtensionType w mod 32) = nat (ExtensionType w)" by auto
    then have f1: "ReadBits enc 0 5 = Inr (nat (ExtensionType w), 5)"
      using Marshal_fields(1) [OF m] x by simp
    have f5: "ReadBits enc
                (9 + rateWidth (SampleRate w) + rateWidth (ExtensionSampleRate w)) 5
               = Inr (2, 14 + rateWidth (SampleRate w) + rateWidth (ExtensionSampleRate w))"
      using Marshal_fields(5) [OF m x] w(1) by (simp add: ObjectTypeAACLC_def)
    show ?thesis using m u f1 f5 w(1) by blast
  qed
  show ?thesis
    apply (intro conjI impI)
    subgoal by (rule unmarshalExtension_as_rate)
    subgoal by (rule unmarshalExtension_none)
    subgoal using 3 by blast
    subgoal using 3 by blast
    subgoal using 3 by blast
    subgoal using 4 by blast
    done
qed

text \<open>
  An SBR buffer with the core rate 24000 Hz and the extension rate 48000 Hz, and the
  same buffer with SBR as its second type.
\<close>

theorem extension_nesting_witness:
  "unmarshalExtension (zeroConfig\<lparr>Type := 5\<rparr>) [43, 17, 148, 0] 13
     = Inl (UnsupportedObjectType 5)
   \<and> unmarshalExtension (zeroConfig\<lparr>Type := 5\<rparr>) [43, 17, 136, 0] 13
     = Inr (zeroConfig\<lparr>Type := 5, ExtensionType := 5, ExtensionSampleRate := 48000,
              Type := 2\<rparr>, 22)
   \<and> ReadBits [43, 17, 136, 0] 0 5 = Inr (5, 5)
   \<and> Unmarshal zeroConfig [43, 17, 136, 0]
       = Inr \<lparr>Type = 2, SampleRate = 24000, ChannelCount = 2, ExtensionType = 5,
           ExtensionSampleRate = 48000, FrameLengthFlag = False, DependsOnCoreCoder = False,
           CoreCoderDelay = 0\<rparr>
   \<and> inDecodeDomain \<lparr>Type = 2, SampleRate = 24000, ChannelCount = 2, ExtensionType = 5,
           ExtensionSampleRate = 48000, FrameLengthFlag = False, DependsOnCoreCoder = False,
           CoreCoderDelay = 0\<rparr>
   \<and> Marshal \<lparr>Type = 2, SampleRate = 24000, ChannelCount = 2, ExtensionType = 5,
           ExtensionSampleRate = 48000, FrameLengthFlag = False, DependsOnCoreCoder = False,
           CoreCoderDelay = 0\<rparr> = Inr [43, 17, 136, 0]
   \<and> ReadBits [43, 17, 136, 0] 17 5 = Inr (2, 22)"
proof -
  let ?V = "\<lparr>Type = 2, SampleRate = 24000, ChannelCount = 2, ExtensionType = 5,
           ExtensionSampleRate = 48000, FrameLengthFlag = False, DependsOnCoreCoder = False,
           CoreCoderDelay = 0\<rparr>"
  let ?c = "zeroConfig\<lparr>Type := 5\<rparr>"
  note P1 = extension_nesting [THEN conjunct1, rule_format]
  note P3 = extension_nesting [THEN conjunct2, THEN conjunct2, THEN conjunct1, rule_format]
  note P4 = extension_nesting [THEN conjunct2, THEN conjunct2, THEN conjunct2, rule_format]
  have tc: "Type ?c = ObjectTypeSBR \<or> Type ?c = ObjectTypePS"
    by (simp add: ObjectTypeSBR_def)
  have ra: "unmarshalSampleRate ?c [43, 17, 148, 0] 13
              = Inr (?c\<lparr>SampleRate := 48000\<rparr>, 17)"
    "ReadBits [43, 17, 148, 0] 17 5 = Inr (5, 22)"
    and rb: "unmarshalSampleRate ?c [43, 17, 136, 0] 13
              = Inr (?c\<lparr>SampleRate := 48000\<rparr>, 17)"
    "ReadBits [43, 17, 136, 0] 17 5 = Inr (2, 22)"
    and r0: "ReadBits [43, 17, 136, 0] 0 5 = Inr (5, 5)"
    by (simp_all add: decode_eval)
  have u: "Unmarshal zeroConfig [43, 17, 136, 0] = Inr ?V"
    by (simp add: decode_eval)
  have m: "Marshal ?V = Inr [43, 17, 136, 0]"
    by (rule Marshal_bytes) (simp_all add: layout_eval)
  have 1: "unmarshalExtension ?c [43, 17, 148, 0] 13 = Inl (UnsupportedObjectType 5)"
    unfolding P1 [OF tc] by (simp add: ra ObjectTypeAACLC_def)
  have 2: "unmarshalExtension ?c [43, 17, 136, 0] 13
     = Inr (zeroConfig\<lparr>Type := 5, ExtensionType := 5, ExtensionSampleRate := 48000,
              Type := 2\<rparr>, 22)"
    unfolding P1 [OF tc] by (simp add: rb ObjectTypeAACLC_def)
  have t5: "int 5 = ObjectTypeSBR \<or> int 5 = ObjectTypePS"
    by (simp add: ObjectTypeSBR_def)
  have d: "inDecodeDomain ?V"
    by (rule P3 [OF conjI [OF r0 conjI [OF t5 u]], THEN conjunct2, THEN conjunct2])
  have x: "hasExtension ?V"
    by (simp add: hasExtension_def ObjectTypeSBR_def)
  have w: "rateWidth (SampleRate ?V) = 4" "rateWidth (ExtensionSampleRate ?V) = 4"
    by (simp_all add: rateWidth_def reverseSampleRates_def)
  from P4 [OF conjI [OF d x]] obtain enc where "Marshal ?V = Inr enc"
    "ReadBits enc (9 + rateWidth (SampleRate ?V) + rateWidth (ExtensionSampleRate ?V)) 5
       = Inr (2, 14 + rateWidth (SampleRate ?V) + rateWidth (ExtensionSampleRate ?V))"
    by blast
  then have 5: "ReadBits [43, 17, 136, 0] 17 5 = Inr (2, 22)"
    unfolding m w by simp
  show ?thesis using 1 2 r0 u d m 5 by (simp only: simp_thms)
qed

section \<open>Truncated buffers\<close>

lemma bit_at_take: "i < 8 * k \<Longrightarrow> bit_at (take k full) i = bit_at full i"
proof -
  assume "i < 8 * k"
  then have "i div 8 < k" by simp
  then show ?thesis by (simp add: bit_at_def)
qed

lemma ReadBits_take:
  assumes "k \<le> length full"
  shows "ReadBits (take k full) pos n =
           (if pos + n \<le> 8 * k then ReadBits full pos n else Inl NotEnoughBits)"
proof (cases "pos + n \<le> 8 * k")
  case True
  have eq: "map (bit_at (take k full)) [pos..<pos + n] = map (bit_at full) [pos..<pos + n]"
    using True by (intro map_cong refl bit_at_take) simp
  have len: "length (take k full) = k"
    using assms by simp
  show ?thesis
    unfolding ReadBits_def eq len using True assms by simp
next
  case False
  then show ?thesis using assms by (simp add: ReadBits_def)
qed

lemma ReadFlag_take:
  assumes "k \<le> length full"
  shows "ReadFlag (take k full) pos =
           (if pos + 1 \<le> 8 * k then ReadFlag full pos else Inl NotEnoughBits)"
proof (cases "pos + 1 \<le> 8 * k")
  case True
  then have "bit_at (take k full) pos = bit_at full pos"
    by (intro bit_at_take) simp
  then show ?thesis
    using True assms by (simp add: ReadFlag_def)
next
  case False
  then show ?thesis using assms by (simp add: ReadFlag_def)
qed

lemma ReadFlag_Inr:
  "ReadFlag buf pos = Inr (b, p) \<Longrightarrow> p = pos + 1 \<and> pos + 1 \<le> 8 * length buf"
  by (simp add: ReadFlag_def split: if_splits)

lemma unmarshalType_take:
  assumes "unmarshalType c full pos = Inr (c', p')" "k \<le> length full"
  shows "unmarshalType c (take k full) pos
           = (if p' \<le> 8 * k then Inr (c', p') else Inl NotEnoughBits)"
proof (cases "ReadBits full pos 5")
  case (Inl e)
  then show ?thesis using assms(1) by (simp add: unmarshalType_def)
next
  case (Inr tp)
  obtain t p where tp: "tp = (t, p)" by (cases tp)
  from ReadBits_Inr [of full pos 5 t p] Inr tp have p: "p = pos + 5" by simp
  have "p' = p" using assms(1) Inr tp
    by (simp add: unmarshalType_def Let_def split: if_splits)
  then show ?thesis
    using assms Inr tp p by (simp add: unmarshalType_def ReadBits_take)
qed

lemma unmarshalSampleRate_take:
  assumes "unmarshalSampleRate c full pos = Inr (c', p')" "k \<le> length full"
  shows "unmarshalSampleRate c (take k full) pos
           = (if p' \<le> 8 * k then Inr (c', p') else Inl NotEnoughBits)"
proof (cases "ReadBits full pos 4")
  case (Inl e)
  then show ?thesis using assms(1) by (simp add: unmarshalSampleRate_def)
next
  case (Inr ip)
  obtain i p where ip: "ip = (i, p)" by (cases ip)
  from ReadBits_Inr [of full pos 4 i p] Inr ip have p: "p = pos + 4" by simp
  show ?thesis
  proof (cases "i \<le> 12")
    case True
    then have "p' = p" using assms(1) Inr ip by (simp add: unmarshalSampleRate_def)
    then show ?thesis
      using assms Inr ip p True by (simp add: unmarshalSampleRate_def ReadBits_take)
  next
    case False
    show ?thesis
    proof (cases "ReadBits full p 24")
      case (Inl e)
      then show ?thesis
        using assms(1) Inr ip False by (simp add: unmarshalSampleRate_def split: if_splits)
    next
      case r: (Inr rq)
      obtain r' q where rq: "rq = (r', q)" by (cases rq)
      from ReadBits_Inr [of full p 24 r' q] r rq have q: "q = p + 24" by simp
      have i: "i = 15" "p' = q"
        using assms(1) Inr ip False r rq
        by (simp_all add: unmarshalSampleRate_def split: if_splits)
      show ?thesis
        using assms Inr ip r rq p q i
        by (simp add: unmarshalSampleRate_def ReadBits_take)
    qed
  qed
qed

lemma unmarshalChannelConfig_take:
  assumes "unmarshalChannelConfig c full pos = Inr (c', p')" "k \<le> length full"
  shows "unmarshalChannelConfig c (take k full) pos
           = (if p' \<le> 8 * k then Inr (c', p') else Inl NotEnoughBits)"
proof (cases "ReadBits full pos 4")
  case (Inl e)
  then show ?thesis using assms(1) by (simp add: unmarshalChannelConfig_def)
next
  case (Inr cp)
  obtain ch p where cp: "cp = (ch, p)" by (cases cp)
  from ReadBits_Inr [of full pos 4 ch p] Inr cp have p: "p = pos + 4" by simp
  have "p' = p" using assms(1) Inr cp
    by (simp add: unmarshalChannelConfig_def split: if_splits)
  then show ?thesis
    using assms Inr cp p by (simp add: unmarshalChannelConfig_def ReadBits_take)
qed

lemma unmarshalExtension_take:
  assumes "unmarshalExtension c full pos = Inr (c', p')" "k \<le> length full" "pos \<le> 8 * k"
  shows "unmarshalExtension c (take k full) pos
           = (if p' \<le> 8 * k then Inr (c', p') else Inl NotEnoughBits)"
proof (cases "Type c = ObjectTypeSBR \<or> Type c = ObjectTypePS")
  case False
  then have "unmarshalExtension c buf pos = Inr (c, pos)" for buf
    by (simp add: unmarshalExtension_def)
  then show ?thesis using assms by simp
next
  case True
  note eq = unmarshalExtension_as_rate [OF True]
  show ?thesis
  proof (cases "unmarshalSampleRate c full pos")
    case (Inl e)
    then show ?thesis using assms(1) by (simp add: eq)
  next
    case (Inr cp)
    obtain c2 p where cp: "cp = (c2, p)" by (cases cp)
    note rate = unmarshalSampleRate_take [OF Inr [unfolded cp] assms(2)]
    show ?thesis
    proof (cases "ReadBits full p 5")
      case (Inl e)
      then show ?thesis using assms(1) Inr cp by (simp add: eq)
    next
      case r: (Inr tq)
      obtain t2 q where tq: "tq = (t2, q)" by (cases tq)
      from ReadBits_Inr [of full p 5 t2 q] r tq have q: "q = p + 5" by simp
      have res: "int t2 = ObjectTypeAACLC" "p' = q"
        "c' = c\<lparr>ExtensionType := Type c, ExtensionSampleRate := SampleRate c2,
                 Type := ObjectTypeAACLC\<rparr>"
        using assms(1) Inr cp r tq by (simp_all add: eq split: if_splits)
      show ?thesis
      proof (cases "p \<le> 8 * k")
        case True
        then show ?thesis
          using rate r tq q res assms(2)
          by (simp add: eq [of "take k full"] ReadBits_take)
      next
        case False
        then show ?thesis
          using rate q res by (simp add: eq [of "take k full"])
      qed
    qed
  qed
qed

lemma unmarshalFlags_take:
  assumes "unmarshalFlags c full pos = Inr (c', p')" "k \<le> length full"
  shows "unmarshalFlags c (take k full) pos
           = (if p' \<le> 8 * k then Inr (c', p') else Inl NotEnoughBits)"
proof (cases "ReadFlag full pos")
  case (Inl e)
  then show ?thesis using assms(1) by (simp add: unmarshalFlags_def)
next
  case f1: (Inr fp)
  obtain f p where fp: "fp = (f, p)" by (cases fp)
  from ReadFlag_Inr [of full pos f p] f1 fp have p: "p = pos + 1" by simp
  show ?thesis
  proof (cases "ReadFlag full p")
    case (Inl e)
    then show ?thesis using assms(1) f1 fp by (simp add: unmarshalFlags_def)
  next
    case f2: (Inr dq)
    obtain d q where dq: "dq = (d, q)" by (cases dq)
    from ReadFlag_Inr [of full p d q] f2 dq have q: "q = pos + 2" using p by simp
    show ?thesis
    proof (cases d)
      case False
      show ?thesis
      proof (cases "ReadFlag full q")
        case (Inl e)
        then show ?thesis
          using assms(1) f1 fp f2 dq False
          by (simp add: unmarshalFlags_def bind_err_def Let_def)
      next
        case f3: (Inr xs)
        obtain x s where xs: "xs = (x, s)" by (cases xs)
        from ReadFlag_Inr [of full q x s] f3 xs have s: "s = pos + 3" using q by simp
        have "p' = s" "\<not> x"
          using assms(1) f1 fp f2 dq False f3 xs
          by (simp_all add: unmarshalFlags_def bind_err_def Let_def split: if_splits)
        then show ?thesis
          using assms f1 fp f2 dq False f3 xs p q s
          by (simp add: unmarshalFlags_def bind_err_def Let_def ReadFlag_take)
      qed
    next
      case True
      show ?thesis
      proof (cases "ReadBits full q 14")
        case (Inl e)
        then show ?thesis
          using assms(1) f1 fp f2 dq True
          by (simp add: unmarshalFlags_def bind_err_def Let_def)
      next
        case r: (Inr tr)
        obtain tmp r' where tr: "tr = (tmp, r')" by (cases tr)
        from ReadBits_Inr [of full q 14 tmp r'] r tr have r': "r' = pos + 16" using q by simp
        show ?thesis
        proof (cases "ReadFlag full r'")
          case (Inl e)
          then show ?thesis
            using assms(1) f1 fp f2 dq True r tr
            by (simp add: unmarshalFlags_def bind_err_def Let_def)
        next
          case f3: (Inr xs)
          obtain x s where xs: "xs = (x, s)" by (cases xs)
          from ReadFlag_Inr [of full r' x s] f3 xs have s: "s = pos + 17" using r' by simp
          have "p' = s" "\<not> x"
            using assms(1) f1 fp f2 dq True r tr f3 xs
            by (simp_all add: unmarshalFlags_def bind_err_def Let_def split: if_splits)
          then show ?thesis
            using assms f1 fp f2 dq True r tr f3 xs p q r' s
            by (simp add: unmarshalFlags_def bind_err_def Let_def ReadFlag_take ReadBits_take)
        qed
      qed
    qed
  qed
qed

lemma unmarshalFlags_end:
  assumes "unmarshalFlags c buf pos = Inr (c', p')"
  shows "p' \<le> 8 * length buf"
proof -
  from unmarshalFlags_take [OF assms, of "length buf"]
  have "unmarshalFlags c buf pos
          = (if p' \<le> 8 * length buf then Inr (c', p') else Inl NotEnoughBits)"
    by simp
  then show ?thesis using assms by (simp split: if_splits)
qed

lemma UnmarshalFromPos_truncated:
  assumes full: "UnmarshalFromPos c0 full pos = Inr (v, n)" and k: "8 * k < n"
  shows "UnmarshalFromPos c0 (take k full) pos = Inl NotEnoughBits"
proof -
  from full obtain c1 p1 c2 p2 c3 p3 c4 p4 where
    s1: "unmarshalType c0 full pos = Inr (c1, p1)" and
    s2: "unmarshalSampleRate c1 full p1 = Inr (c2, p2)" and
    s3: "unmarshalChannelConfig c2 full p2 = Inr (c3, p3)" and
    s4: "unmarshalExtension c3 full p3 = Inr (c4, p4)" and
    s5: "unmarshalFlags c4 full p4 = Inr (v, n)"
    by (rule UnmarshalFromPos_stages)
  have "n \<le> 8 * length full" using s5 by (rule unmarshalFlags_end)
  then have len: "k \<le> length full" using k by simp
  note e1 = unmarshalType_take [OF s1 len]
  note e2 = unmarshalSampleRate_take [OF s2 len]
  note e3 = unmarshalChannelConfig_take [OF s3 len]
  note e4 = unmarshalExtension_take [OF s4 len]
  note e5 = unmarshalFlags_take [OF s5 len]
  show ?thesis
  proof (cases "p1 \<le> 8 * k")
    case False
    then show ?thesis by (simp add: UnmarshalFromPos_def bind_err_def e1)
  next
    case a: True
    show ?thesis
    proof (cases "p2 \<le> 8 * k")
      case False
      then show ?thesis using a by (simp add: UnmarshalFromPos_def bind_err_def e1 e2)
    next
      case b: True
      show ?thesis
      proof (cases "p3 \<le> 8 * k")
        case False
        then show ?thesis
          using a b by (simp add: UnmarshalFromPos_def bind_err_def e1 e2 e3)
      next
        case c: True
        show ?thesis
        proof (cases "p4 \<le> 8 * k")
          case False
          then show ?thesis
            using a b c by (simp add: UnmarshalFromPos_def bind_err_def e1 e2 e3 e4 [OF c])
        next
          case d: True
          have "\<not> n \<le> 8 * k" using k by simp
          then show ?thesis
            using a b c d
            by (simp add: UnmarshalFromPos_def bind_err_def e1 e2 e3 e4 [OF c] e5)
        qed
      qed
    qed
  qed
qed

lemma ReadBits_not_panic: "ReadBits buf pos n \<noteq> Inl IndexOutOfRange"
  using ReadBits_Inl [of buf pos n IndexOutOfRange] by auto

lemma ReadFlag_not_panic: "ReadFlag buf pos \<noteq> Inl IndexOutOfRange"
  using ReadFlag_Inl [of buf pos IndexOutOfRange] by auto

lemma UnmarshalFromPos_errors:
  assumes "UnmarshalFromPos c buf pos = Inl e"
  shows "e \<noteq> IndexOutOfRange"
proof -
  have t: "e \<noteq> IndexOutOfRange" if "unmarshalType c1 buf p1 = Inl e" for c1 p1
    using that
    by (auto simp: unmarshalType_def Let_def split: sum.splits if_splits dest: ReadBits_Inl)
  have r: "e \<noteq> IndexOutOfRange" if "unmarshalSampleRate c1 buf p1 = Inl e" for c1 p1
    using that
    by (auto simp: unmarshalSampleRate_def split: sum.splits if_splits dest: ReadBits_Inl)
  have ch: "e \<noteq> IndexOutOfRange" if "unmarshalChannelConfig c1 buf p1 = Inl e" for c1 p1
    using that
    by (auto simp: unmarshalChannelConfig_def split: sum.splits if_splits dest: ReadBits_Inl)
  have x: "e \<noteq> IndexOutOfRange" if "unmarshalExtension c1 buf p1 = Inl e" for c1 p1
  proof (cases "Type c1 = ObjectTypeSBR \<or> Type c1 = ObjectTypePS")
    case False
    then show ?thesis using that by (simp add: unmarshalExtension_def)
  next
    case True
    show ?thesis
      using that r unfolding unmarshalExtension_as_rate [OF True]
      by (auto split: sum.splits if_splits error.splits dest: ReadBits_Inl)
  qed
  have f: "e \<noteq> IndexOutOfRange" if "unmarshalFlags c1 buf p1 = Inl e" for c1 p1
    using that
    by (auto simp: unmarshalFlags_def bind_err_def Let_def ReadBits_not_panic
          ReadFlag_not_panic split: sum.splits if_splits)
  show ?thesis
    using assms t r ch x f
    by (auto simp: UnmarshalFromPos_def bind_err_def split: sum.splits)
qed

lemma Unmarshal_short:
  assumes "length buf < 2"
  shows "Unmarshal c0 buf =
           (case ReadBits buf 0 5 of
              Inl e \<Rightarrow> Inl NotEnoughBits
            | Inr (t, p) \<Rightarrow>
                if int t = ObjectTypeAACLC \<or> int t = ObjectTypeSBR \<or> int t = ObjectTypePS
                then Inl NotEnoughBits
                else Inl (UnsupportedObjectType (int t)))"
proof (cases "ReadBits buf 0 5")
  case (Inl e)
  then have "UnmarshalFromPos c0 buf 0 = Inl NotEnoughBits"
    using ReadBits_Inl [OF Inl]
    by (simp add: UnmarshalFromPos_def bind_err_def unmarshalType_def)
  then show ?thesis using Inl by (simp add: Unmarshal_Inl_I)
next
  case (Inr tp)
  obtain t p where tp: "tp = (t, p)" by (cases tp)
  from ReadBits_Inr [of buf 0 5 t p] Inr tp have p: "p = 5" by simp
  have short: "ReadBits buf 5 4 = Inl NotEnoughBits"
    using assms by (simp add: ReadBits_def)
  have rate: "unmarshalSampleRate c buf 5 = Inl NotEnoughBits" for c
    using short by (simp add: unmarshalSampleRate_def)
  note ty = unmarshalType_read [OF Inr [unfolded tp p], of c0]
  show ?thesis
  proof (cases "int t = ObjectTypeAACLC \<or> int t = ObjectTypeSBR \<or> int t = ObjectTypePS")
    case True
    then have "UnmarshalFromPos c0 buf 0 = Inl NotEnoughBits"
      using ty rate by (simp add: UnmarshalFromPos_def bind_err_def)
    then show ?thesis using Inr tp True by (simp add: Unmarshal_Inl_I)
  next
    case False
    then have "UnmarshalFromPos c0 buf 0 = Inl (UnsupportedObjectType (int t))"
      using ty by (simp add: UnmarshalFromPos_def bind_err_def)
    then show ?thesis using Inr tp False by (simp add: Unmarshal_Inl_I)
  qed
qed

text \<open>
  Claim C8, as amended. \<open>Unmarshal\<close> of a buffer of fewer than two bytes fails: with the
  insufficient-data error of the bit reader when the buffer is empty or its first five
  bits are a recognised object type, and with the unsupported-type error otherwise,
  since the type is checked before the next field is read. When a buffer is decoded
  with success up to bit \<open>n\<close>, every prefix of it of fewer than \<open>n\<close> bits fails with the
  insufficient-data error; so does every such prefix of the encoding of a base-profile
  record. No decoding fails with an index out of range, and the rate table has the 13
  entries that the index check admits.
\<close>

theorem truncated_input:
  "(length buf < 2 \<longrightarrow>
      Unmarshal c0 buf =
        (case ReadBits buf 0 5 of
           Inl e \<Rightarrow> Inl NotEnoughBits
         | Inr (t, p) \<Rightarrow>
             if int t = ObjectTypeAACLC \<or> int t = ObjectTypeSBR \<or> int t = ObjectTypePS
             then Inl NotEnoughBits
             else Inl (UnsupportedObjectType (int t))))
   \<and> Unmarshal c0 [] = Inl NotEnoughBits
   \<and> (UnmarshalFromPos c0 full 0 = Inr (v, n) \<and> 8 * k < n \<longrightarrow>
        Unmarshal c0 (take k full) = Inl NotEnoughBits)
   \<and> (Type c = ObjectTypeAACLC \<and> ChannelCount c \<in> {1, 2, 3, 4, 5, 6, 8}
        \<and> 8 * k < marshalSizeBits c \<longrightarrow>
        (\<exists>enc w. Marshal c = Inr enc \<and> Unmarshal zeroConfig enc = Inr w
           \<and> Unmarshal zeroConfig (take k enc) = Inl NotEnoughBits))
   \<and> Unmarshal c0 buf \<noteq> Inl IndexOutOfRange
   \<and> length sampleRates = 13"
proof -
  have 1: "Unmarshal c0 [] = Inl NotEnoughBits"
    using Unmarshal_short [of "[]" c0] by (simp add: ReadBits_def)
  have 2: "Unmarshal c0 (take k full) = Inl NotEnoughBits"
    if "UnmarshalFromPos c0 full 0 = Inr (v, n)" "8 * k < n"
    using UnmarshalFromPos_truncated [OF that] by (rule Unmarshal_Inl_I)
  have 3: "\<exists>enc w. Marshal c = Inr enc \<and> Unmarshal zeroConfig enc = Inr w
           \<and> Unmarshal zeroConfig (take k enc) = Inl NotEnoughBits"
    if t: "Type c = ObjectTypeAACLC" and v: "ChannelCount c \<in> {1, 2, 3, 4, 5, 6, 8}"
      and k: "8 * k < marshalSizeBits c"
  proof -
    from v have "validChannelCount (ChannelCount c)" by (simp add: validChannelCount_cases)
    from Unmarshal_Marshal [OF t this] obtain enc where
      m: "Marshal c = Inr enc"
      and u: "UnmarshalFromPos zeroConfig enc 0 = Inr (readBack c, marshalSizeBits c)"
      by blast
    from UnmarshalFromPos_truncated [OF u k]
    have "Unmarshal zeroConfig (take k enc) = Inl NotEnoughBits" by (rule Unmarshal_Inl_I)
    moreover have "Unmarshal zeroConfig enc = Inr (readBack c)"
      using u by (simp add: Unmarshal_def)
    ultimately show ?thesis using m by blast
  qed
  have 4: "Unmarshal c0 buf \<noteq> Inl IndexOutOfRange"
    using UnmarshalFromPos_errors [of c0 buf 0]
    by (auto simp: Unmarshal_def split: sum.splits)
  show ?thesis
    using Unmarshal_short [of buf c0] 1 2 3 4 sampleRates_length by blast
qed

text \<open>
  Claim C8 as stated has every buffer shorter than the 12-bit header fail with the
  insufficient-data error. The one-byte buffer 0x00 fails with the unsupported-type
  error: its first five bits are read and are not a recognised type.
\<close>

theorem truncated_input_counterexample:
  "8 * length [0 :: byte] < 12
   \<and> Unmarshal zeroConfig [0] = Inl (UnsupportedObjectType 0)"
  by (simp add: decode_eval)

text \<open>
  The empty buffer, the one-byte buffers 0x12 and 0x00, and the prefixes of a 30-bit
  encoding.
\<close>

theorem truncated_input_witness:
  "Unmarshal zeroConfig [] = Inl NotEnoughBits
   \<and> length [18 :: byte] < 2
   \<and> Unmarshal zeroConfig [18] = Inl NotEnoughBits
   \<and> Unmarshal zeroConfig [0] = Inl (UnsupportedObjectType 0)
   \<and> UnmarshalFromPos zeroConfig [18, 18, 0, 40] 0
       = Inr (\<lparr>Type = 2, SampleRate = 44100, ChannelCount = 2, ExtensionType = 0,
                ExtensionSampleRate = 0, FrameLengthFlag = False,
                DependsOnCoreCoder = True, CoreCoderDelay = 5\<rparr>, 30)
   \<and> Unmarshal zeroConfig (take 3 [18, 18, 0, 40]) = Inl NotEnoughBits
   \<and> Unmarshal zeroConfig (take 2 [18, 18, 0, 40]) = Inl NotEnoughBits
   \<and> Marshal \<lparr>Type = 2, SampleRate = 44100, ChannelCount = 2, ExtensionType = 0,
                ExtensionSampleRate = 0, FrameLengthFlag = False,
                DependsOnCoreCoder = True, CoreCoderDelay = 5\<rparr> = Inr [18, 18, 0, 40]"
proof -
  let ?V = "\<lparr>Type = 2, SampleRate = 44100, ChannelCount = 2, ExtensionType = 0,
                ExtensionSampleRate = 0, FrameLengthFlag = False,
                DependsOnCoreCoder = True, CoreCoderDelay = 5\<rparr>"
  note P1 = truncated_input [THEN conjunct1, rule_format]
  note P2 = truncated_input [THEN conjunct2, THEN conjunct1]
  note P3 = truncated_input [THEN conjunct2, THEN conjunct2, THEN conjunct1, rule_format]
  note P4 = truncated_input
    [THEN conjunct2, THEN conjunct2, THEN conjunct2, THEN conjunct1, rule_format]
  have l: "length [18 :: byte] < 2" "length [0 :: byte] < 2" by simp_all
  have r: "ReadBits [18] 0 5 = Inr (2, 5)" "ReadBits [0] 0 5 = Inr (0, 5)"
    by (simp_all add: decode_eval)
  have 1: "Unmarshal zeroConfig [18] = Inl NotEnoughBits"
    using P1 [OF l(1), of zeroConfig] r(1) by (simp add: ObjectTypeAACLC_def)
  have 2: "Unmarshal zeroConfig [0] = Inl (UnsupportedObjectType 0)"
    using P1 [OF l(2), of zeroConfig] r(2)
    by (simp add: ObjectTypeAACLC_def ObjectTypeSBR_def ObjectTypePS_def)
  have u: "UnmarshalFromPos zeroConfig [18, 18, 0, 40] 0 = Inr (?V, 30)"
    by (simp add: decode_eval)
  have k: "8 * (3::nat) < 30" "8 * (2::nat) < 30" by simp_all
  note 3 = P3 [OF conjI [OF u k(1)]] P3 [OF conjI [OF u k(2)]]
  have m: "Marshal ?V = Inr [18, 18, 0, 40]"
    by (rule Marshal_bytes) (simp_all add: layout_eval)
  show ?thesis using P2 [of zeroConfig] l(1) 1 2 u 3 m by (simp only: simp_thms)
qed

end
